theory Spec2Isabelle
  imports Main "HOL-Library.AList"
begin

section \<open>Errors\<close>

text \<open>
  The errors that cross the boundary of the scheduler and of the retrying task:
  \<^item> \<open>CyclicDependencyError path\<close> is the class of \<open>run.ts\<close>, with its \<open>path\<close> field;
  \<^item> \<open>Error msg\<close> is a plain JavaScript \<open>Error\<close> with its message;
  \<^item> \<open>TypeError msg\<close> is what destructuring \<open>undefined\<close> raises;
  \<^item> \<open>AggregateError errors msg\<close> is the built-in aggregate with its \<open>errors\<close> and message.
\<close>

datatype error =
    CyclicDependencyError "string list"
  | Error string
  | TypeError string
  | AggregateError "error list" string

text \<open>\<open>Array.prototype.join\<close> with a separator.\<close>

fun join :: "string \<Rightarrow> string list \<Rightarrow> string" where
  "join sep [] = []"
| "join sep [x] = x"
| "join sep (x # y # zs) = x @ sep @ join sep (y # zs)"

definition formatPath :: "string list \<Rightarrow> string" where
  "formatPath path = join '' -> '' path"

text \<open>The \<open>message\<close> property of an error, as the constructors of the source set it.\<close>

fun error_message :: "error \<Rightarrow> string" where
  "error_message (CyclicDependencyError path) = ''Cycle detected: '' @ formatPath path"
| "error_message (Error msg) = msg"
| "error_message (TypeError msg) = msg"
| "error_message (AggregateError errors msg) = msg"

section \<open>The task graph\<close>

text \<open>
  A \<open>TaskDescriptor\<close> of \<open>types.ts\<close>. The type of the action is a parameter: the
  ordering algorithm never looks at it.
\<close>

record 'a TaskDescriptor =
  name :: string
  dependencies :: "string list"
  task :: 'a

text \<open>
  The private field \<open>#tasks\<close> is a JavaScript \<open>Map\<close>: keys are unique and iteration
  follows insertion order. It is an association list; \<open>Map.prototype.set\<close> replaces
  the value of a key that is present in place and appends a new key, which is
  \<^const>\<open>AList.update\<close>.
\<close>

type_synonym 'a TaskGraph = "(string \<times> 'a TaskDescriptor) list"

definition add :: "'a TaskDescriptor \<Rightarrow> 'a TaskGraph \<Rightarrow> 'a TaskGraph" where
  "add td g = AList.update (name td) td g"

definition get :: "'a TaskGraph \<Rightarrow> string \<Rightarrow> 'a TaskDescriptor option" where
  "get g n = map_of g n"

definition has :: "'a TaskGraph \<Rightarrow> string \<Rightarrow> bool" where
  "has g n = (map_of g n \<noteq> None)"

definition delete :: "string \<Rightarrow> 'a TaskGraph \<Rightarrow> bool \<times> 'a TaskGraph" where
  "delete n g = (map_of g n \<noteq> None, AList.delete n g)"

section \<open>Topological sort\<close>

text \<open>
  The three local variables of \<open>topologicalSort\<close> that the closure \<open>visit\<close> mutates.
  \<open>visiting\<close> is a \<open>Set\<close> whose iteration order is observed (it is spread into the
  path of the cycle error), so it is a list without repetitions in insertion order;
  \<open>visited\<close> is only asked for membership.
\<close>

record sort_state =
  sorted :: "string list"
  visited :: "string set"
  visiting :: "string list"

definition set_add :: "string \<Rightarrow> string list \<Rightarrow> string list" where
  "set_add x xs = (if x \<in> set xs then xs else xs @ [x])"

definition set_delete :: "string \<Rightarrow> string list \<Rightarrow> string list" where
  "set_delete x xs = remove1 x xs"

text \<open>
  \<open>visit\<close> and the \<open>forEach\<close> loops that call it. A \<open>throw\<close> leaves every loop and
  every pending call, so the result is the error alone.
\<close>

function visit :: "'a TaskGraph \<Rightarrow> string \<Rightarrow> sort_state \<Rightarrow> error + sort_state"
  and forEach_visit :: "'a TaskGraph \<Rightarrow> string list \<Rightarrow> sort_state \<Rightarrow> error + sort_state"
where
  "visit g n st =
     (if n \<in> visited st then Inr st
      else if n \<in> set (visiting st) then Inl (CyclicDependencyError (visiting st @ [n]))
      else
        let st1 = st\<lparr>visiting := set_add n (visiting st)\<rparr> in
        case get g n of
          None \<Rightarrow> Inl (Error (''Task not found: '' @ n))
        | Some td \<Rightarrow>
            (case forEach_visit g (dependencies td) st1 of
               Inl e \<Rightarrow> Inl e
             | Inr st2 \<Rightarrow>
                 Inr (st2\<lparr>visiting := set_delete n (visiting st2),
                          visited := insert n (visited st2),
                          sorted := sorted st2 @ [n]\<rparr>)))"
| "forEach_visit g [] st = Inr st"
| "forEach_visit g (d # ds) st =
     (case visit g d st of
        Inl e \<Rightarrow> Inl e
      | Inr st' \<Rightarrow> forEach_visit g ds st')"
  by pat_completeness auto

definition topologicalSort :: "'a TaskGraph \<Rightarrow> error + string list" where
  "topologicalSort g =
     (case forEach_visit g (map fst g) \<lparr>sorted = [], visited = {}, visiting = []\<rparr> of
        Inl e \<Rightarrow> Inl e
      | Inr st \<Rightarrow> Inr (sorted st))"

section \<open>Sequential execution\<close>

text \<open>
  A \<open>Task\<close> is an asynchronous function of the message and the context that mutates
  them and whose promise fulfils or rejects. \<open>execute\<close> awaits each action before it
  starts the next, so an action is a transformer of the state \<open>'s\<close> (the message and the
  context) that also says how its promise settled: \<open>None\<close> when it fulfilled,
  \<open>Some e\<close> when it rejected with \<open>e\<close>. Actions are taken to settle.
\<close>

type_synonym 's Task = "'s \<Rightarrow> 's \<times> error option"

definition dquote :: string where
  "dquote = [CHR 0x22]"

text \<open>
  The loop of \<open>execute\<close> over the plan. The third component of the result is the list
  of the names whose action was invoked, in the order of invocation. \<open>this.get(name)!\<close>
  is destructured outside the \<open>try\<close>: an absent name raises a \<open>TypeError\<close>.
\<close>

fun execute_loop :: "'s Task TaskGraph \<Rightarrow> string list \<Rightarrow> 's \<Rightarrow> string list
    \<Rightarrow> (error + unit) \<times> 's \<times> string list" where
  "execute_loop g [] s invoked = (Inr (), s, invoked)"
| "execute_loop g (n # rest) s invoked =
     (case get g n of
        None \<Rightarrow> (Inl (TypeError ''Cannot destructure property of undefined''), s, invoked)
      | Some td \<Rightarrow>
          (case task td s of
             (s', Some e) \<Rightarrow>
               (Inl (AggregateError [e] (''Task '' @ dquote @ n @ dquote @ '' failed'')),
                s', invoked @ [n])
           | (s', None) \<Rightarrow> execute_loop g rest s' (invoked @ [n])))"

definition execute :: "'s Task TaskGraph \<Rightarrow> 's \<Rightarrow> (error + unit) \<times> 's \<times> string list" where
  "execute g s =
     (case topologicalSort g of
        Inl e \<Rightarrow> (Inl e, s, [])
      | Inr tasks \<Rightarrow> execute_loop g tasks s [])"

section \<open>Parallel execution\<close>

text \<open>
  A \<open>PromiseSettledResult\<close>. Under \<open>executeParallel\<close> the actions interleave at their
  suspension points, so the run is described by two parameters: \<open>settles n\<close> is the way
  the promise of the action of the task \<open>n\<close> settles once the action is invoked, and
  \<open>first_rejected\<close> (below) decides races between rejections.
\<close>

datatype settled = Fulfilled | Rejected error

definition isRejected :: "settled \<Rightarrow> bool" where
  "isRejected r = (case r of Rejected e \<Rightarrow> True | Fulfilled \<Rightarrow> False)"

text \<open>
  \<open>Promise.all\<close> over the dependency promises: it fulfils when all of them fulfil and
  rejects with the reason of the promise that rejects first in time. An entry that is
  \<open>undefined\<close> (a name with no promise in the map) counts as fulfilled. Which of
  several rejected promises was first is decided by timing, which the model leaves
  open: the parameter \<open>first_rejected\<close> picks the reason among the rejected ones.
\<close>

definition promise_all :: "(error list \<Rightarrow> error) \<Rightarrow> settled option list \<Rightarrow> settled" where
  "promise_all first_rejected ps =
     (let reasons = [e. Some (Rejected e) \<leftarrow> ps]
      in if reasons = [] then Fulfilled else Rejected (first_rejected reasons))"

text \<open>
  The local map \<open>taskPromises\<close>, each promise with the way it settles, and the set of
  the names whose action is invoked.
\<close>

record par_state =
  taskPromises :: "(string \<times> settled) list"
  invoked :: "string set"

text \<open>The closure \<open>executeTask\<close>: wait for the dependencies, then invoke the action.\<close>

definition executeTask :: "(error list \<Rightarrow> error) \<Rightarrow> (string \<Rightarrow> settled)
    \<Rightarrow> settled option list \<Rightarrow> string \<Rightarrow> string set \<Rightarrow> settled \<times> string set" where
  "executeTask first_rejected settles dependencyPromises n started =
     (case promise_all first_rejected dependencyPromises of
        Rejected e \<Rightarrow> (Rejected e, started)
      | Fulfilled \<Rightarrow> (settles n, insert n started))"

fun executeParallel_loop :: "(error list \<Rightarrow> error) \<Rightarrow> (string \<Rightarrow> settled)
    \<Rightarrow> 'a TaskGraph \<Rightarrow> string list \<Rightarrow> par_state \<Rightarrow> error + par_state" where
  "executeParallel_loop first_rejected settles g [] ps = Inr ps"
| "executeParallel_loop first_rejected settles g (n # rest) ps =
     (case get g n of
        None \<Rightarrow> Inl (TypeError ''Cannot destructure property of undefined'')
      | Some td \<Rightarrow>
          let dependencyPromises = map (map_of (taskPromises ps)) (dependencies td);
              (r, started) = executeTask first_rejected settles dependencyPromises n (invoked ps)
          in executeParallel_loop first_rejected settles g rest
               \<lparr>taskPromises = AList.update n r (taskPromises ps), invoked = started\<rparr>)"

text \<open>Decimal digits of a natural number, as a template literal prints a count.\<close>

definition digit :: "nat \<Rightarrow> char" where
  "digit d = char_of (48 + d)"

function show_nat :: "nat \<Rightarrow> string" where
  "show_nat n = (if n < 10 then [digit n] else show_nat (n div 10) @ [digit (n mod 10)])"
  by pat_completeness auto
termination
  by (relation "measure (\<lambda>n. n)") auto

declare show_nat.simps [simp del]

definition executeParallel :: "(error list \<Rightarrow> error) \<Rightarrow> (string \<Rightarrow> settled)
    \<Rightarrow> 'a TaskGraph \<Rightarrow> (error + unit) \<times> string set" where
  "executeParallel first_rejected settles g =
     (case topologicalSort g of
        Inl e \<Rightarrow> (Inl e, {})
      | Inr taskOrder \<Rightarrow>
          (case executeParallel_loop first_rejected settles g taskOrder
                  \<lparr>taskPromises = [], invoked = {}\<rparr> of
             Inl e \<Rightarrow> (Inl e, {})
           | Inr ps \<Rightarrow>
               let settled = map snd (taskPromises ps);
                   rejected = filter isRejected settled
               in if length rejected \<noteq> 0
                  then (Inl (AggregateError [e. Rejected e \<leftarrow> rejected]
                               (show_nat (length rejected) @ '' tasks failed'')),
                        invoked ps)
                  else (Inr (), invoked ps)))"

section \<open>Messages, contexts and the completion port\<close>

text \<open>
  \<open>DataItem\<close>, \<open>ChatMessage\<close> and \<open>Context\<close>. The content of a data item is
  \<open>unknown\<close> in the source; here it is a value of the type \<open>'j\<close> of decoded JSON.
  The private maps \<open>#data\<close> are association lists, as the task map is.
\<close>

record 'j DataItem =
  item_content :: 'j
  item_size :: "nat option"

record 'j ChatMessage =
  role :: string
  content :: string
  size :: "nat option"
  data :: "(string \<times> 'j DataItem) list"

definition SystemChatMessage :: "string \<Rightarrow> 'j ChatMessage" where
  "SystemChatMessage c = \<lparr>role = ''system'', content = c, size = None, data = []\<rparr>"

definition UserChatMessage :: "string \<Rightarrow> 'j ChatMessage" where
  "UserChatMessage c = \<lparr>role = ''user'', content = c, size = None, data = []\<rparr>"

definition message_set :: "string \<Rightarrow> 'j \<Rightarrow> nat option \<Rightarrow> 'j ChatMessage \<Rightarrow> 'j ChatMessage" where
  "message_set key val sz m =
     m\<lparr>data := AList.update key \<lparr>item_content = val, item_size = sz\<rparr> (data m)\<rparr>"

definition message_get :: "'j ChatMessage \<Rightarrow> string \<Rightarrow> 'j option" where
  "message_get m key = map_option item_content (map_of (data m) key)"

record 'j Context =
  messages :: "'j ChatMessage list"
  context_data :: "(string \<times> 'j DataItem) list"

definition new_Context :: "'j Context" where
  "new_Context = \<lparr>messages = [], context_data = []\<rparr>"

definition push :: "'j ChatMessage \<Rightarrow> 'j Context \<Rightarrow> 'j Context" where
  "push m c = c\<lparr>messages := messages c @ [m]\<rparr>"

record CompletionUsage =
  prompt :: nat
  completion :: nat

text \<open>A \<open>Completion\<close>; the field \<open>duration\<close>, a time that no task reads, is left out.\<close>

record 'j Completion =
  message :: "'j ChatMessage"
  usage :: CompletionUsage

text \<open>
  A \<open>ChatCompletion\<close> is an asynchronous function of a context and options that
  returns a completion or throws. It may answer differently from call to call, so it
  carries a state \<open>'p\<close> of its own.
\<close>

type_synonym ('j, 'o, 'p) ChatCompletion =
  "'p \<Rightarrow> 'j Context \<Rightarrow> 'o option \<Rightarrow> (error + 'j Completion) \<times> 'p"

text \<open>
  The result of a compiled Ajv validator: \<open>Invalid m\<close> when the value does not match,
  with the message of the first entry of \<open>errors\<close>, if it has one.
\<close>

datatype validation = Valid | Invalid "string option"

section \<open>The retrying JSON task\<close>

text \<open>
  What one invocation of the task returned by \<open>createJsonTask\<close> works on: its private
  \<open>innerContext\<close>, the message it was given, the state of the port, and a log of
  the calls of the port (the conversation sent and the answer).
\<close>

record ('j, 'p) json_state =
  innerContext :: "'j Context"
  target :: "'j ChatMessage"
  port :: 'p
  calls :: "('j Context \<times> (error + 'j Completion)) list"

text \<open>
  The inner function \<open>complete\<close>. \<open>JSON.parse\<close> is the parameter \<open>parse\<close>, which
  returns \<open>None\<close> where \<open>JSON.parse\<close> throws.
\<close>

definition complete :: "string \<Rightarrow> ('j, 'o, 'p) ChatCompletion \<Rightarrow> (string \<Rightarrow> 'j option)
    \<Rightarrow> ('j \<Rightarrow> validation) \<Rightarrow> 'o option \<Rightarrow> ('j, 'p) json_state
    \<Rightarrow> (error + unit) \<times> ('j, 'p) json_state" where
  "complete key chatCompletion parse validateJson options st =
     (case chatCompletion (port st) (innerContext st) options of
        (Inl e, p) \<Rightarrow>
          (Inl e, st\<lparr>port := p, calls := calls st @ [(innerContext st, Inl e)]\<rparr>)
      | (Inr c, p) \<Rightarrow>
          let response = message c;
              st1 = st\<lparr>port := p, calls := calls st @ [(innerContext st, Inr c)],
                       innerContext := push response (innerContext st)\<rparr>
          in (case parse (content response) of
                None \<Rightarrow> (Inl (Error ''Message is not valid JSON''), st1)
              | Some parsedJson \<Rightarrow>
                  (case validateJson parsedJson of
                     Invalid m \<Rightarrow>
                       (Inl (Error (case m of Some msg \<Rightarrow> msg | None \<Rightarrow> ''Invalid JSON'')), st1)
                   | Valid \<Rightarrow>
                       (Inr (),
                        st1\<lparr>target := message_set key parsedJson
                                 (Some (completion (usage c))) (target st1)\<rparr>))))"

definition newline :: string where
  "newline = [CHR 0x0A]"

text \<open>The \<open>for\<close> loop of the task, from the counter \<open>i\<close> on, and the \<open>throw\<close> after it.\<close>

function tries :: "string \<Rightarrow> ('j, 'o, 'p) ChatCompletion \<Rightarrow> (string \<Rightarrow> 'j option)
    \<Rightarrow> ('j \<Rightarrow> validation) \<Rightarrow> 'o option \<Rightarrow> nat \<Rightarrow> nat \<Rightarrow> ('j, 'p) json_state
    \<Rightarrow> (error + unit) \<times> ('j, 'p) json_state" where
  "tries key chatCompletion parse validateJson options maxTries i st =
     (if i < maxTries then
        (case complete key chatCompletion parse validateJson options st of
           (Inr u, st') \<Rightarrow> (Inr (), st')
         | (Inl e, st') \<Rightarrow>
             tries key chatCompletion parse validateJson options maxTries (Suc i)
               (st'\<lparr>innerContext := push (UserChatMessage
                   (''Unable to parse response. Please fix the error and try again.''
                    @ newline @ newline @ ''Error: '' @ error_message e))
                   (innerContext st')\<rparr>))
      else (Inl (Error (''Unable to parse response after '' @ show_nat maxTries @ '' tries'')),
            st))"
  by pat_completeness auto
termination
  by (relation "measure (\<lambda>(key, chatCompletion, parse, validateJson, options, maxTries, i, st).
        maxTries - i)") auto

declare tries.simps [simp del]

text \<open>
  What the caller can see after the task has settled: how it settled, the message, the
  shared context, the port, and, for the statements below, the calls made and the
  private conversation as the task left it.
\<close>

record ('j, 'p) task_result =
  outcome :: "error + unit"
  message_after :: "'j ChatMessage"
  context_after :: "'j Context"
  port_after :: 'p
  port_calls :: "('j Context \<times> (error + 'j Completion)) list"
  conversation :: "'j Context"

definition createJsonTask :: "string \<Rightarrow> ('j, 'o, 'p) ChatCompletion \<Rightarrow> (string \<Rightarrow> 'j option)
    \<Rightarrow> ('j \<Rightarrow> validation) \<Rightarrow> string \<Rightarrow> nat \<Rightarrow> 'o option
    \<Rightarrow> 'j ChatMessage \<Rightarrow> 'j Context \<Rightarrow> 'p \<Rightarrow> ('j, 'p) task_result" where
  "createJsonTask key chatCompletion parse validateJson systemMessageContent maxTries options
       msg context p =
     (let innerContext0 = push (UserChatMessage (content msg))
                            (push (SystemChatMessage systemMessageContent) new_Context)
      in case tries key chatCompletion parse validateJson options maxTries 0
                \<lparr>innerContext = innerContext0, target = msg, port = p, calls = []\<rparr> of
           (r, st) \<Rightarrow>
             \<lparr>outcome = r, message_after = target st, context_after = context,
              port_after = port st, port_calls = calls st, conversation = innerContext st\<rparr>)"

section \<open>Notions used in the statements\<close>

text \<open>
  The declared dependencies of a registered task, the dependency relation (\<open>t\<close> depends
  on \<open>d\<close>), and the position of a name in a list (the length of the list when the name
  is absent).
\<close>

definition deps :: "'a TaskGraph \<Rightarrow> string \<Rightarrow> string list" where
  "deps g t = (case get g t of None \<Rightarrow> [] | Some td \<Rightarrow> dependencies td)"

definition dep_rel :: "'a TaskGraph \<Rightarrow> (string \<times> string) set" where
  "dep_rel g = {(t, d). d \<in> set (deps g t)}"

fun position :: "string list \<Rightarrow> string \<Rightarrow> nat" where
  "position [] x = 0"
| "position (y # ys) x = (if x = y then 0 else Suc (position ys x))"

text \<open>The two updates of the state in \<open>visit\<close>, and the state \<open>topologicalSort\<close> starts from.\<close>

definition enter :: "string \<Rightarrow> sort_state \<Rightarrow> sort_state" where
  "enter n st = st\<lparr>visiting := set_add n (visiting st)\<rparr>"

definition finish :: "string \<Rightarrow> sort_state \<Rightarrow> sort_state" where
  "finish n st2 = st2\<lparr>visiting := set_delete n (visiting st2),
                          visited := insert n (visited st2),
                          sorted := sorted st2 @ [n]\<rparr>"

definition init_state :: sort_state where
  "init_state = \<lparr>sorted = [], visited = {}, visiting = []\<rparr>"

text \<open>Every element of a list has its dependencies before it.\<close>

definition deps_first :: "'a TaskGraph \<Rightarrow> string list \<Rightarrow> bool" where
  "deps_first g xs = (\<forall>i < length xs. set (deps g (xs ! i)) \<subseteq> set (take i xs))"

text \<open>The invariant of the traversal.\<close>

definition sort_inv :: "'a TaskGraph \<Rightarrow> sort_state \<Rightarrow> bool" where
  "sort_inv g st \<longleftrightarrow>
     distinct (sorted st) \<and> set (sorted st) = visited st \<and>
     visited st \<inter> set (visiting st) = {} \<and> visited st \<subseteq> fst ` set g \<and>
     deps_first g (sorted st)"

text \<open>The output only grows, by names reachable from the roots of the traversal.\<close>

definition grows :: "'a TaskGraph \<Rightarrow> string set \<Rightarrow> sort_state \<Rightarrow> sort_state \<Rightarrow> bool" where
  "grows g roots st st' \<longleftrightarrow>
     (\<exists>ys. sorted st' = sorted st @ ys \<and> set ys \<subseteq> (dep_rel g)\<^sup>* `` roots)"

definition visit_post :: "'a TaskGraph \<Rightarrow> string list \<Rightarrow> sort_state \<Rightarrow> sort_state \<Rightarrow> bool" where
  "visit_post g ns st st' \<longleftrightarrow>
     (sort_inv g st \<longrightarrow>
        sort_inv g st' \<and> visiting st' = visiting st \<and> set ns \<subseteq> visited st' \<and>
        grows g (set ns) st st')"

text \<open>
  For the parallel executor: the way a unit of work settles, given the promises recorded
  so far and the declared dependencies; one round of the loop; a plan in which every
  name is registered, new, and preceded by its dependencies; the invariant of the loop;
  the reasons of the rejected results.
\<close>

definition unit_result :: "(error list \<Rightarrow> error) \<Rightarrow> (string \<Rightarrow> settled) \<Rightarrow> (string \<times> settled) list
    \<Rightarrow> string list \<Rightarrow> string \<Rightarrow> settled" where
  "unit_result first_rejected settles tp ds n =
     (case promise_all first_rejected (map (map_of tp) ds) of
        Rejected e \<Rightarrow> Rejected e
      | Fulfilled \<Rightarrow> settles n)"

definition par_step :: "(error list \<Rightarrow> error) \<Rightarrow> (string \<Rightarrow> settled) \<Rightarrow> string list \<Rightarrow> string
    \<Rightarrow> par_state \<Rightarrow> par_state" where
  "par_step first_rejected settles ds n ps =
     \<lparr>taskPromises = AList.update n (unit_result first_rejected settles (taskPromises ps) ds n)
                       (taskPromises ps),
      invoked = (if promise_all first_rejected (map (map_of (taskPromises ps)) ds) = Fulfilled
                 then insert n (invoked ps) else invoked ps)\<rparr>"

fun scheduled_ok :: "'a TaskGraph \<Rightarrow> string set \<Rightarrow> string list \<Rightarrow> bool" where
  "scheduled_ok g base [] = True"
| "scheduled_ok g base (n # ns) =
     (get g n \<noteq> None \<and> n \<notin> base \<and> set (deps g n) \<subseteq> base \<and> scheduled_ok g (insert n base) ns)"

definition par_inv :: "(error list \<Rightarrow> error) \<Rightarrow> (string \<Rightarrow> settled) \<Rightarrow> 'a TaskGraph
    \<Rightarrow> par_state \<Rightarrow> bool" where
  "par_inv first_rejected settles g ps \<longleftrightarrow>
     invoked ps \<subseteq> fst ` set (taskPromises ps) \<and>
     (\<forall>n \<in> fst ` set (taskPromises ps).
        get g n \<noteq> None \<and> set (deps g n) \<subseteq> fst ` set (taskPromises ps) \<and>
        map_of (taskPromises ps) n =
          Some (unit_result first_rejected settles (taskPromises ps) (deps g n) n) \<and>
        (n \<in> invoked ps \<longleftrightarrow>
           promise_all first_rejected (map (map_of (taskPromises ps)) (deps g n)) = Fulfilled))"

definition par_init :: par_state where
  "par_init = \<lparr>taskPromises = [], invoked = {}\<rparr>"

definition reasons_of :: "settled list \<Rightarrow> error list" where
  "reasons_of rs = [e. Rejected e \<leftarrow> rs]"

text \<open>
  For the failures of the sort: the invariant of the set \<open>visiting\<close> on the way down (a
  chain of dependency edges without repetition, whose last element declares the names
  about to be visited; at the top level the names are registered), a cycle written as a
  path from a name back to itself, and the two shapes a failure can have.
\<close>

definition path_ok :: "'a TaskGraph \<Rightarrow> string list \<Rightarrow> string list \<Rightarrow> bool" where
  "path_ok g vs ns \<longleftrightarrow>
     successively (\<lambda>x y. (x, y) \<in> dep_rel g) vs \<and> distinct vs \<and>
     (vs \<noteq> [] \<longrightarrow> (\<forall>n \<in> set ns. (last vs, n) \<in> dep_rel g)) \<and>
     (vs = [] \<longrightarrow> (\<forall>n \<in> set ns. get g n \<noteq> None))"

definition cycle_path :: "'a TaskGraph \<Rightarrow> string list \<Rightarrow> bool" where
  "cycle_path g cyc \<longleftrightarrow>
     2 \<le> length cyc \<and> hd cyc = last cyc \<and> distinct (butlast cyc) \<and>
     successively (\<lambda>x y. (x, y) \<in> dep_rel g) cyc"

definition failure_ok :: "'a TaskGraph \<Rightarrow> error \<Rightarrow> bool" where
  "failure_ok g e \<longleftrightarrow>
     (\<exists>m. e = Error (''Task not found: '' @ m) \<and> get g m = None \<and> (\<exists>t. (t, m) \<in> dep_rel g)) \<or>
     (\<exists>lead cyc. e = CyclicDependencyError (lead @ cyc) \<and> cycle_path g cyc)"

definition fail_post :: "'a TaskGraph \<Rightarrow> string list \<Rightarrow> sort_state \<Rightarrow> error \<Rightarrow> bool" where
  "fail_post g ns st e \<longleftrightarrow> (path_ok g (visiting st) ns \<longrightarrow> failure_ok g e)"

text \<open>
  For the error of a failed sort, stated apart from the traversal. A name is troubled
  when a name that is not registered, or a name on a dependency cycle, can be reached
  from it along declared dependencies (in no step at all, too). The first problem under
  a name \<open>n\<close>, given the names \<open>way\<close> on the way down to it: \<open>n\<close> itself when it is already
  on the way (a repeated name) or is not registered (a missing name), and otherwise the
  first problem under the first troubled dependency of \<open>n\<close>, in declaration order, with
  \<open>n\<close> added to the way. An error reports a missing name when it is the "task not
  found" error of that name, and a repeated name when it is a cycle error whose path
  ends with that name.
\<close>

definition troubled :: "'a TaskGraph \<Rightarrow> string \<Rightarrow> bool" where
  "troubled g n \<longleftrightarrow>
     (\<exists>x. (n, x) \<in> (dep_rel g)\<^sup>* \<and> (get g x = None \<or> (x, x) \<in> (dep_rel g)\<^sup>+))"

datatype problem = Missing string | Repeated string

inductive first_problem :: "'a TaskGraph \<Rightarrow> string list \<Rightarrow> string \<Rightarrow> problem \<Rightarrow> bool"
  for g :: "'a TaskGraph" where
  repeated: "n \<in> set way \<Longrightarrow> first_problem g way n (Repeated n)"
| missing: "\<lbrakk>n \<notin> set way; get g n = None\<rbrakk> \<Longrightarrow> first_problem g way n (Missing n)"
| descend: "\<lbrakk>n \<notin> set way; get g n = Some td; find (troubled g) (dependencies td) = Some d;
     first_problem g (way @ [n]) d pr\<rbrakk> \<Longrightarrow> first_problem g way n pr"

fun reports :: "error \<Rightarrow> problem \<Rightarrow> bool" where
  "reports e (Missing m) \<longleftrightarrow> e = Error (''Task not found: '' @ m)"
| "reports e (Repeated n) \<longleftrightarrow> (\<exists>path. e = CyclicDependencyError (path @ [n]))"

text \<open>
  What a failed visit guarantees, as statements about the run: a troubled name among
  those visited, and the first problem under the name, or under the first troubled name
  of a list.
\<close>

definition ft_post :: "'a TaskGraph \<Rightarrow> string list \<Rightarrow> sort_state \<Rightarrow> error \<Rightarrow> bool" where
  "ft_post g ns st e \<longleftrightarrow> (path_ok g (visiting st) ns \<longrightarrow> (\<exists>n \<in> set ns. troubled g n))"

definition blame_post :: "'a TaskGraph \<Rightarrow> string \<Rightarrow> sort_state \<Rightarrow> error \<Rightarrow> bool" where
  "blame_post g n st e \<longleftrightarrow>
     (sort_inv g st \<and> path_ok g (visiting st) [n] \<longrightarrow>
        (\<exists>pr. first_problem g (visiting st) n pr \<and> reports e pr))"

definition blame_posts :: "'a TaskGraph \<Rightarrow> string list \<Rightarrow> sort_state \<Rightarrow> error \<Rightarrow> bool" where
  "blame_posts g ds st e \<longleftrightarrow>
     (sort_inv g st \<and> path_ok g (visiting st) ds \<longrightarrow>
        (\<exists>d pr. find (troubled g) ds = Some d \<and> first_problem g (visiting st) d pr \<and>
           reports e pr))"

text \<open>
  For the retrying task: an answer of the port that decodes and validates; a
  conversation that continues another; what one call of \<open>complete\<close> does; what a run of
  the loop from the counter \<open>i\<close> does.
\<close>

definition attempt_ok :: "(string \<Rightarrow> 'j option) \<Rightarrow> ('j \<Rightarrow> validation) \<Rightarrow> error + 'j Completion \<Rightarrow> bool" where
  "attempt_ok parse validateJson a =
     (case a of
        Inl e \<Rightarrow> False
      | Inr c \<Rightarrow>
          (case parse (content (message c)) of
             None \<Rightarrow> False
           | Some j \<Rightarrow> validateJson j = Valid))"

definition extends :: "'j Context \<Rightarrow> 'j Context \<Rightarrow> bool" where
  "extends c0 c \<longleftrightarrow> (\<exists>ext. messages c = messages c0 @ ext) \<and> context_data c = context_data c0"

definition step_summary :: "string \<Rightarrow> (string \<Rightarrow> 'j option) \<Rightarrow> ('j \<Rightarrow> validation)
    \<Rightarrow> ('j, 'p) json_state \<Rightarrow> error + unit \<Rightarrow> ('j, 'p) json_state
    \<Rightarrow> error + 'j Completion \<Rightarrow> bool" where
  "step_summary key parse validateJson st x st1 a \<longleftrightarrow>
     calls st1 = calls st @ [(innerContext st, a)] \<and>
     extends (innerContext st) (innerContext st1) \<and>
     (case x of
        Inr u \<Rightarrow>
          (\<exists>c j. a = Inr c \<and> parse (content (message c)) = Some j \<and> validateJson j = Valid \<and>
             target st1 = message_set key j (Some (completion (usage c))) (target st))
      | Inl e \<Rightarrow> \<not> attempt_ok parse validateJson a \<and> target st1 = target st)"

definition run_summary :: "string \<Rightarrow> (string \<Rightarrow> 'j option) \<Rightarrow> ('j \<Rightarrow> validation) \<Rightarrow> nat \<Rightarrow> nat
    \<Rightarrow> ('j, 'p) json_state \<Rightarrow> error + unit \<Rightarrow> ('j, 'p) json_state \<Rightarrow> bool" where
  "run_summary key parse validateJson maxTries i st r st' \<longleftrightarrow>
     (\<exists>new. calls st' = calls st @ new \<and> length new \<le> maxTries - i \<and>
        (\<forall>a \<in> set (butlast (map snd new)). \<not> attempt_ok parse validateJson a) \<and>
        (\<forall>conv \<in> set (map fst new). extends (innerContext st) conv) \<and>
        extends (innerContext st) (innerContext st') \<and>
        (case r of
           Inr u \<Rightarrow>
             new \<noteq> [] \<and>
             (\<exists>c j. snd (last new) = Inr c \<and> parse (content (message c)) = Some j \<and>
                validateJson j = Valid \<and>
                target st' = message_set key j (Some (completion (usage c))) (target st))
         | Inl e \<Rightarrow>
             length new = maxTries - i \<and>
             (\<forall>a \<in> set (map snd new). \<not> attempt_ok parse validateJson a) \<and>
             e = Error (''Unable to parse response after '' @ show_nat maxTries @ '' tries'') \<and>
             target st' = target st))"

text \<open>
  For the sequential executor, stated apart from its loop: the state that the actions
  of the names of a list leave when they run one after the other and each of them
  fulfils; \<open>None\<close> when a name is not registered or an action rejects.
\<close>

fun fulfil_all :: "'s Task TaskGraph \<Rightarrow> string list \<Rightarrow> 's \<Rightarrow> 's option" where
  "fulfil_all g [] s = Some s"
| "fulfil_all g (n # ns) s =
     (case get g n of
        None \<Rightarrow> None
      | Some td \<Rightarrow> (if snd (task td s) = None then fulfil_all g ns (fst (task td s)) else None))"

section \<open>Example graphs and ports\<close>

text \<open>The graph of the first example: \<open>A\<close> depends on \<open>C\<close>; \<open>B\<close> and \<open>C\<close> are free.\<close>

definition tie_graph :: "unit TaskGraph" where
  "tie_graph =
     [(''A'', \<lparr>name = ''A'', dependencies = [''C''], task = ()\<rparr>),
      (''B'', \<lparr>name = ''B'', dependencies = [], task = ()\<rparr>),
      (''C'', \<lparr>name = ''C'', dependencies = [], task = ()\<rparr>)]"

text \<open>
  Three chained tasks over a state that records what each action did: \<open>A\<close> and \<open>C\<close>
  fulfil, \<open>B\<close> rejects.
\<close>

definition seq_graph :: "string list Task TaskGraph" where
  "seq_graph =
     [(''A'', \<lparr>name = ''A'', dependencies = [], task = (\<lambda>s. (s @ [''a''], None))\<rparr>),
      (''B'', \<lparr>name = ''B'', dependencies = [''A''],
              task = (\<lambda>s. (s @ [''b''], Some (Error ''boom'')))\<rparr>),
      (''C'', \<lparr>name = ''C'', dependencies = [''B''], task = (\<lambda>s. (s @ [''c''], None))\<rparr>)]"

text \<open>
  A task \<open>B\<close> that depends on \<open>A\<close>; three tasks without dependencies; a task \<open>C\<close> that
  depends on the free tasks \<open>A\<close> and \<open>B\<close>, and a run in which the actions of \<open>A\<close> and
  \<open>B\<close> reject with different errors; a run in which the action of \<open>A\<close> rejects and
  every other action fulfils.
\<close>

definition par_graph :: "unit TaskGraph" where
  "par_graph =
     [(''A'', \<lparr>name = ''A'', dependencies = [], task = ()\<rparr>),
      (''B'', \<lparr>name = ''B'', dependencies = [''A''], task = ()\<rparr>)]"

definition free_graph :: "unit TaskGraph" where
  "free_graph =
     [(''A'', \<lparr>name = ''A'', dependencies = [], task = ()\<rparr>),
      (''B'', \<lparr>name = ''B'', dependencies = [], task = ()\<rparr>),
      (''C'', \<lparr>name = ''C'', dependencies = [], task = ()\<rparr>)]"

definition fan_graph :: "unit TaskGraph" where
  "fan_graph =
     [(''A'', \<lparr>name = ''A'', dependencies = [], task = ()\<rparr>),
      (''B'', \<lparr>name = ''B'', dependencies = [], task = ()\<rparr>),
      (''C'', \<lparr>name = ''C'', dependencies = [''A'', ''B''], task = ()\<rparr>)]"

definition ab_fail :: "string \<Rightarrow> settled" where
  "ab_fail n =
     (if n = ''A'' then Rejected (Error ''a'')
      else if n = ''B'' then Rejected (Error ''b'') else Fulfilled)"

definition a_fails :: "string \<Rightarrow> settled" where
  "a_fails n = (if n = ''A'' then Rejected (Error ''boom'') else Fulfilled)"

text \<open>
  Graphs of actions that do nothing: a cycle of two tasks; a cycle entered from a task
  outside it; a cycle registered after a task with a missing dependency; two tasks
  with a missing dependency each; one task with a missing dependency.
\<close>

definition noop :: "unit Task" where
  "noop s = (s, None)"



definition mixed_graph :: "unit Task TaskGraph" where
  "mixed_graph =
     [(''X'', \<lparr>name = ''X'', dependencies = [''M''], task = noop\<rparr>),
      (''A'', \<lparr>name = ''A'', dependencies = [''B''], task = noop\<rparr>),
      (''B'', \<lparr>name = ''B'', dependencies = [''A''], task = noop\<rparr>)]"

definition two_missing :: "unit Task TaskGraph" where
  "two_missing =
     [(''A'', \<lparr>name = ''A'', dependencies = [''M1''], task = noop\<rparr>),
      (''B'', \<lparr>name = ''B'', dependencies = [''M2''], task = noop\<rparr>)]"

definition one_missing :: "unit Task TaskGraph" where
  "one_missing = [(''A'', \<lparr>name = ''A'', dependencies = [''M''], task = noop\<rparr>)]"

text \<open>
  For the retrying task, with decoded values that are lists of strings: a decoder that
  accepts only the empty array, a validator that accepts everything, a completion with
  a given content, and four ports that count their calls: one that answers well from
  its third call on, one that never answers well, one whose first call fails in
  transport, and one whose every call does; a message and a shared context.
\<close>

definition parse_ex :: "string \<Rightarrow> string list option" where
  "parse_ex s = (if s = ''[]'' then Some [] else None)"

definition always_valid :: "string list \<Rightarrow> validation" where
  "always_valid j = Valid"

definition reply :: "string \<Rightarrow> string list Completion" where
  "reply s =
     \<lparr>message = \<lparr>role = ''assistant'', content = s, size = Some 5, data = []\<rparr>,
      usage = \<lparr>prompt = 7, completion = 5\<rparr>\<rparr>"

definition third_time_port :: "(string list, unit, nat) ChatCompletion" where
  "third_time_port n ctx opts = (if n < 2 then Inr (reply ''oops'') else Inr (reply ''[]''), Suc n)"

definition garbage_port :: "(string list, unit, nat) ChatCompletion" where
  "garbage_port n ctx opts = (Inr (reply ''oops''), Suc n)"

definition flaky_port :: "(string list, unit, nat) ChatCompletion" where
  "flaky_port n ctx opts =
     (if n = 0 then Inl (Error ''Chat completion failed: Bad Gateway'') else Inr (reply ''[]''),
      Suc n)"

definition dead_port :: "(string list, unit, nat) ChatCompletion" where
  "dead_port n ctx opts = (Inl (Error ''Chat completion failed: Bad Gateway''), Suc n)"

definition user_msg :: "string list ChatMessage" where
  "user_msg = \<lparr>role = ''user'', content = ''hello'', size = None, data = []\<rparr>"

definition shared_ctx :: "string list Context" where
  "shared_ctx =
     \<lparr>messages = [SystemChatMessage ''You are a helpful assistant.''], context_data = []\<rparr>"

section \<open>Termination of the traversal\<close>

text \<open>
  A call of \<open>visit\<close> that goes on adds a registered name to \<open>visiting\<close>, and a call
  that returns leaves \<open>visiting\<close> as it found it: the registered names outside
  \<open>visiting\<close> get fewer on the way down.
\<close>

lemma set_delete_set_add: "n \<notin> set vs \<Longrightarrow> set_delete n (set_add n vs) = vs"
  by (simp add: set_add_def set_delete_def remove1_append)

lemma visiting_restored_dom:
  "visit_forEach_visit_dom (Inl (g, n, st)) \<Longrightarrow>
     (\<forall>st'. visit g n st = Inr st' \<longrightarrow> visiting st' = visiting st)"
  "visit_forEach_visit_dom (Inr (g, ds, st)) \<Longrightarrow>
     (\<forall>st'. forEach_visit g ds st = Inr st' \<longrightarrow> visiting st' = visiting st)"
proof (induct g n st and g ds st rule: visit_forEach_visit.pinduct)
  case (1 g n st)
  show ?case
  proof (intro allI impI)
    fix st'
    assume r: "visit g n st = Inr st'"
    show "visiting st' = visiting st"
    proof (cases "n \<in> visited st")
      case True
      with r 1(1) show ?thesis by (simp add: visit.psimps)
    next
      case nv: False
      show ?thesis
      proof (cases "n \<in> set (visiting st)")
        case True
        with r nv 1(1) show ?thesis by (simp add: visit.psimps)
      next
        case ni: False
        obtain td where td: "get g n = Some td"
          using r nv ni 1(1) by (cases "get g n") (simp_all add: visit.psimps)
        let ?st1 = "st\<lparr>visiting := set_add n (visiting st)\<rparr>"
        obtain st2 where st2: "forEach_visit g (dependencies td) ?st1 = Inr st2"
          using r nv ni td 1(1)
          by (cases "forEach_visit g (dependencies td) ?st1") (simp_all add: visit.psimps)
        have "visiting st2 = visiting ?st1"
          using 1(2) [OF nv ni refl td] st2 by blast
        moreover have "st' = st2\<lparr>visiting := set_delete n (visiting st2),
            visited := insert n (visited st2), sorted := sorted st2 @ [n]\<rparr>"
          using r nv ni td st2 1(1) by (simp add: visit.psimps)
        ultimately show ?thesis
          using ni by (simp add: set_delete_set_add)
      qed
    qed
  qed
next
  case (2 g st)
  then show ?case by (simp add: forEach_visit.psimps)
next
  case (3 g d ds st)
  show ?case
  proof (intro allI impI)
    fix st'
    assume r: "forEach_visit g (d # ds) st = Inr st'"
    obtain st1 where st1: "visit g d st = Inr st1"
      using r 3(1) by (cases "visit g d st") (simp_all add: forEach_visit.psimps)
    then have "forEach_visit g ds st1 = Inr st'"
      using r 3(1) by (simp add: forEach_visit.psimps)
    then have "visiting st' = visiting st1"
      using 3(3) [OF st1] by blast
    moreover have "visiting st1 = visiting st"
      using 3(2) st1 by blast
    ultimately show "visiting st' = visiting st" by simp
  qed
qed

lemma get_Some_key: "get g n = Some td \<Longrightarrow> n \<in> fst ` set g"
  by (auto simp: get_def dest: map_of_SomeD intro: rev_image_eqI)

lemma card_visiting_less:
  assumes "n \<in> fst ` set g" and "n \<notin> set vs"
  shows "card (fst ` set g - set (set_add n vs)) < card (fst ` set g - set vs)"
proof -
  have "fst ` set g - set (set_add n vs) \<subset> fst ` set g - set vs"
    using assms by (auto simp: set_add_def)
  then show ?thesis
    by (intro psubset_card_mono) auto
qed

termination visit
  apply (relation "inv_image (less_than <*lex*> less_than)
    (\<lambda>x. case x of
       Inl (g, n, st) \<Rightarrow> (card (fst ` set g - set (visiting st)), 0)
     | Inr (g, ds, st) \<Rightarrow> (card (fst ` set g - set (visiting st)), Suc (length ds)))")
  subgoal by (intro wf_inv_image wf_lex_prod wf_less_than)
  subgoal for g n st st1 td
    using card_visiting_less [of n g "visiting st"] get_Some_key [of g n td] by simp
  subgoal by simp
  subgoal for g d ds st st'
    using visiting_restored_dom(1) [of g d st] by simp
  done

declare visit.simps [simp del]

section \<open>The traversal: case analysis and induction over a run\<close>

lemma visit_Inr_cases:
  assumes "visit g n st = Inr st'"
  shows "(n \<in> visited st \<and> st' = st) \<or>
         (n \<notin> visited st \<and> n \<notin> set (visiting st) \<and>
          (\<exists>td st2. get g n = Some td \<and>
             forEach_visit g (dependencies td) (enter n st) = Inr st2 \<and> st' = finish n st2))"
proof (cases "n \<in> visited st")
  case True
  with assms show ?thesis by (simp add: visit.simps)
next
  case nv: False
  show ?thesis
  proof (cases "n \<in> set (visiting st)")
    case True
    with assms nv show ?thesis by (simp add: visit.simps)
  next
    case ni: False
    obtain td where td: "get g n = Some td"
      using assms nv ni by (cases "get g n") (simp_all add: visit.simps)
    obtain st2 where st2: "forEach_visit g (dependencies td) (enter n st) = Inr st2"
      using assms nv ni td
      by (cases "forEach_visit g (dependencies td) (enter n st)")
         (simp_all add: visit.simps enter_def)
    have "st' = finish n st2"
      using assms nv ni td st2 by (simp add: visit.simps enter_def finish_def)
    with nv ni td st2 show ?thesis by blast
  qed
qed

lemma visit_Inl_cases:
  assumes "visit g n st = Inl e"
  shows "n \<notin> visited st \<and>
         ((n \<in> set (visiting st) \<and> e = CyclicDependencyError (visiting st @ [n])) \<or>
          (n \<notin> set (visiting st) \<and> get g n = None \<and> e = Error (''Task not found: '' @ n)) \<or>
          (n \<notin> set (visiting st) \<and>
            (\<exists>td. get g n = Some td \<and> forEach_visit g (dependencies td) (enter n st) = Inl e)))"
proof (cases "n \<in> visited st")
  case True
  with assms show ?thesis by (simp add: visit.simps)
next
  case nv: False
  show ?thesis
  proof (cases "n \<in> set (visiting st)")
    case True
    with assms nv show ?thesis by (simp add: visit.simps)
  next
    case ni: False
    show ?thesis
    proof (cases "get g n")
      case None
      with assms nv ni show ?thesis by (simp add: visit.simps)
    next
      case (Some td)
      with assms nv ni show ?thesis
        by (cases "forEach_visit g (dependencies td) (enter n st)")
           (simp_all add: visit.simps enter_def)
    qed
  qed
qed

lemma forEach_Cons_Inr:
  "forEach_visit g (d # ds) st = Inr st' \<longleftrightarrow>
     (\<exists>st1. visit g d st = Inr st1 \<and> forEach_visit g ds st1 = Inr st')"
  by (cases "visit g d st") simp_all

lemma forEach_Cons_Inl:
  "forEach_visit g (d # ds) st = Inl e \<longleftrightarrow>
     (visit g d st = Inl e \<or> (\<exists>st1. visit g d st = Inr st1 \<and> forEach_visit g ds st1 = Inl e))"
  by (cases "visit g d st") simp_all

lemma visit_success_induct_aux:
  fixes g :: "'a TaskGraph"
  assumes skip: "\<And>n st. n \<in> visited st \<Longrightarrow> P n st st"
    and node: "\<And>n st td st2. \<lbrakk>n \<notin> visited st; n \<notin> set (visiting st); get g n = Some td;
        forEach_visit g (dependencies td) (enter n st) = Inr st2;
        Q (dependencies td) (enter n st) st2\<rbrakk> \<Longrightarrow> P n st (finish n st2)"
    and nil: "\<And>st. Q [] st st"
    and cons: "\<And>d ds st st1 st'. \<lbrakk>visit g d st = Inr st1; P d st st1;
        forEach_visit g ds st1 = Inr st'; Q ds st1 st'\<rbrakk> \<Longrightarrow> Q (d # ds) st st'"
  shows "g' = g \<longrightarrow> (\<forall>st'. visit g' n st = Inr st' \<longrightarrow> P n st st')"
    and "g' = g \<longrightarrow> (\<forall>st'. forEach_visit g' ds st = Inr st' \<longrightarrow> Q ds st st')"
proof (induct g' n st and g' ds st rule: visit_forEach_visit.induct)
  case (1 g' n st)
  show ?case
  proof (intro allI impI)
    fix st'
    assume eq: "g' = g" and r: "visit g' n st = Inr st'"
    from visit_Inr_cases [OF r] show "P n st st'"
    proof (elim disjE conjE exE)
      assume "n \<in> visited st" "st' = st"
      then show ?thesis using skip by simp
    next
      fix td st2
      assume h: "n \<notin> visited st" "n \<notin> set (visiting st)" "get g' n = Some td"
        "forEach_visit g' (dependencies td) (enter n st) = Inr st2" "st' = finish n st2"
      have "Q (dependencies td) (enter n st) st2"
        using 1 [OF h(1) h(2) refl h(3)] h(4) eq unfolding enter_def by blast
      then show ?thesis using node [of n st td st2] h eq by simp
    qed
  qed
next
  case (2 g' st)
  show ?case using nil by simp
next
  case (3 g' d ds st)
  show ?case
  proof (intro allI impI)
    fix st'
    assume eq: "g' = g" and r: "forEach_visit g' (d # ds) st = Inr st'"
    then obtain st1 where s: "visit g' d st = Inr st1" "forEach_visit g' ds st1 = Inr st'"
      unfolding forEach_Cons_Inr by blast
    have "P d st st1" using 3(1) s(1) eq by blast
    moreover have "Q ds st1 st'" using 3(2) [OF s(1)] s(2) eq by blast
    ultimately show "Q (d # ds) st st'" using cons [of d st st1 ds st'] s eq by simp
  qed
qed

lemma visit_success_induct:
  fixes g :: "'a TaskGraph"
  assumes skip: "\<And>n st. n \<in> visited st \<Longrightarrow> P n st st"
    and node: "\<And>n st td st2. \<lbrakk>n \<notin> visited st; n \<notin> set (visiting st); get g n = Some td;
        forEach_visit g (dependencies td) (enter n st) = Inr st2;
        Q (dependencies td) (enter n st) st2\<rbrakk> \<Longrightarrow> P n st (finish n st2)"
    and nil: "\<And>st. Q [] st st"
    and cons: "\<And>d ds st st1 st'. \<lbrakk>visit g d st = Inr st1; P d st st1;
        forEach_visit g ds st1 = Inr st'; Q ds st1 st'\<rbrakk> \<Longrightarrow> Q (d # ds) st st'"
  shows "visit g n st = Inr st' \<Longrightarrow> P n st st'"
    and "forEach_visit g ds st = Inr st' \<Longrightarrow> Q ds st st'"
proof -
  have "g = g \<longrightarrow> (\<forall>st'. visit g n st = Inr st' \<longrightarrow> P n st st')"
    by (rule visit_success_induct_aux(1) [where Q = Q and g = g])
       (rule skip, assumption, rule node, assumption+, rule nil, rule cons, assumption+)
  then show "visit g n st = Inr st' \<Longrightarrow> P n st st'" by blast
  have "g = g \<longrightarrow> (\<forall>st'. forEach_visit g ds st = Inr st' \<longrightarrow> Q ds st st')"
    by (rule visit_success_induct_aux(2) [where P = P and g = g])
       (rule skip, assumption, rule node, assumption+, rule nil, rule cons, assumption+)
  then show "forEach_visit g ds st = Inr st' \<Longrightarrow> Q ds st st'" by blast
qed


lemma position_less: "x \<in> set xs \<Longrightarrow> position xs x < length xs"
  by (induction xs) auto

lemma position_ge: "x \<notin> set xs \<Longrightarrow> position xs x = length xs"
  by (induction xs) auto

lemma nth_position: "x \<in> set xs \<Longrightarrow> xs ! position xs x = x"
  by (induction xs) auto

lemma position_take: "x \<in> set (take i xs) \<Longrightarrow> position xs x < i"
proof (induction xs arbitrary: i)
  case Nil
  then show ?case by simp
next
  case (Cons y ys)
  then show ?case by (cases i) auto
qed

lemma position_append_in: "x \<in> set xs \<Longrightarrow> position (xs @ ys) x = position xs x"
  by (induction xs) auto

lemma position_append_notin: "x \<notin> set xs \<Longrightarrow> position (xs @ ys) x = length xs + position ys x"
  by (induction xs) auto

lemma deps_first_snoc:
  assumes "deps_first g xs" and "set (deps g n) \<subseteq> set xs"
  shows "deps_first g (xs @ [n])"
  unfolding deps_first_def
proof (intro allI impI)
  fix i
  assume "i < length (xs @ [n])"
  then consider "i < length xs" | "i = length xs" by fastforce
  then show "set (deps g ((xs @ [n]) ! i)) \<subseteq> set (take i (xs @ [n]))"
  proof cases
    case 1
    then show ?thesis using assms(1) by (simp add: deps_first_def nth_append)
  next
    case 2
    then show ?thesis using assms(2) by simp
  qed
qed

lemma deps_first_position:
  assumes "deps_first g xs" and "t \<in> set xs" and "d \<in> set (deps g t)"
  shows "position xs d < position xs t"
proof -
  have "position xs t < length xs" using assms(2) by (rule position_less)
  then have "set (deps g (xs ! position xs t)) \<subseteq> set (take (position xs t) xs)"
    using assms(1) by (simp add: deps_first_def)
  then have "d \<in> set (take (position xs t) xs)"
    using assms(2,3) by (auto simp: nth_position)
  then show ?thesis by (rule position_take)
qed

lemma sort_inv_enter:
  assumes "sort_inv g st" and "n \<notin> visited st"
  shows "sort_inv g (enter n st)"
  using assms by (auto simp: sort_inv_def enter_def set_add_def)

lemma enter_simps:
  "sorted (enter n st) = sorted st" "visited (enter n st) = visited st"
  "n \<notin> set (visiting st) \<Longrightarrow> visiting (enter n st) = visiting st @ [n]"
  by (simp_all add: enter_def set_add_def)

lemma finish_simps:
  "sorted (finish n st) = sorted st @ [n]" "visited (finish n st) = insert n (visited st)"
  "visiting (finish n st) = set_delete n (visiting st)"
  by (simp_all add: finish_def)

lemma set_delete_snoc: "n \<notin> set vs \<Longrightarrow> set_delete n (vs @ [n]) = vs"
  by (simp add: set_delete_def remove1_append)

lemma deps_Some: "get g n = Some td \<Longrightarrow> deps g n = dependencies td"
  by (simp add: deps_def)

lemma sort_inv_finish:
  assumes inv2: "sort_inv g st2" and vis: "visiting st2 = vs @ [n]" and nvs: "n \<notin> set vs"
    and td: "get g n = Some td" and ds: "set (dependencies td) \<subseteq> visited st2"
  shows "sort_inv g (finish n st2)"
proof -
  have n2: "n \<notin> visited st2" using inv2 vis by (auto simp: sort_inv_def)
  have "distinct (sorted st2 @ [n])" using inv2 n2 by (auto simp: sort_inv_def)
  moreover have "set (sorted st2 @ [n]) = insert n (visited st2)"
    using inv2 by (auto simp: sort_inv_def)
  moreover have "insert n (visited st2) \<inter> set (set_delete n (visiting st2)) = {}"
    using inv2 vis nvs by (auto simp: sort_inv_def set_delete_snoc)
  moreover have "insert n (visited st2) \<subseteq> fst ` set g"
    using inv2 get_Some_key [OF td] by (auto simp: sort_inv_def)
  moreover have "deps_first g (sorted st2 @ [n])"
  proof (rule deps_first_snoc)
    show "deps_first g (sorted st2)" using inv2 by (simp add: sort_inv_def)
    show "set (deps g n) \<subseteq> set (sorted st2)"
      using ds inv2 by (simp add: deps_Some [OF td] sort_inv_def)
  qed
  ultimately show ?thesis by (simp add: sort_inv_def finish_simps)
qed

lemma grows_refl: "grows g roots st st"
  by (simp add: grows_def)

lemma grows_trans:
  assumes "grows g r1 st st1" and "grows g r2 st1 st2" and "r1 \<subseteq> r" and "r2 \<subseteq> r"
  shows "grows g r st st2"
proof -
  obtain ys where ys: "sorted st1 = sorted st @ ys" "set ys \<subseteq> (dep_rel g)\<^sup>* `` r1"
    using assms(1) by (auto simp: grows_def)
  obtain zs where zs: "sorted st2 = sorted st1 @ zs" "set zs \<subseteq> (dep_rel g)\<^sup>* `` r2"
    using assms(2) by (auto simp: grows_def)
  have "sorted st2 = sorted st @ (ys @ zs)" using ys zs by simp
  moreover have "set (ys @ zs) \<subseteq> (dep_rel g)\<^sup>* `` r"
    using ys(2) zs(2) Image_mono [OF subset_refl assms(3), of "(dep_rel g)\<^sup>*"]
      Image_mono [OF subset_refl assms(4), of "(dep_rel g)\<^sup>*"] by auto
  ultimately show ?thesis unfolding grows_def by blast
qed

lemma grows_finish:
  assumes "grows g (set (dependencies td)) (enter n st) st2" and td: "get g n = Some td"
  shows "grows g {n} st (finish n st2)"
proof -
  obtain ys where ys: "sorted st2 = sorted st @ ys"
      "set ys \<subseteq> (dep_rel g)\<^sup>* `` set (dependencies td)"
    using assms(1) by (auto simp: grows_def enter_simps)
  have edge: "\<And>d. d \<in> set (dependencies td) \<Longrightarrow> (n, d) \<in> dep_rel g"
    by (simp add: dep_rel_def deps_Some [OF td])
  have "set ys \<subseteq> (dep_rel g)\<^sup>* `` {n}"
  proof
    fix y assume "y \<in> set ys"
    then obtain d where d: "d \<in> set (dependencies td)" "(d, y) \<in> (dep_rel g)\<^sup>*"
      using ys(2) by auto
    have "(n, y) \<in> (dep_rel g)\<^sup>*"
      using edge [OF d(1)] d(2) by (rule converse_rtrancl_into_rtrancl)
    then show "y \<in> (dep_rel g)\<^sup>* `` {n}" by simp
  qed
  then have "set (ys @ [n]) \<subseteq> (dep_rel g)\<^sup>* `` {n}" by simp
  moreover have "sorted (finish n st2) = sorted st @ (ys @ [n])"
    using ys(1) by (simp add: finish_simps)
  ultimately show ?thesis unfolding grows_def by blast
qed

lemma grows_visited:
  assumes "grows g r st st'" and "sort_inv g st" and "sort_inv g st'"
  shows "visited st \<subseteq> visited st'"
  using assms by (auto simp: grows_def sort_inv_def)

lemma vp_skip: "n \<in> visited st \<Longrightarrow> visit_post g [n] st st"
  by (simp add: visit_post_def grows_refl)

lemma vp_nil: "visit_post g [] st st"
  by (simp add: visit_post_def grows_refl)

lemma vp_node:
  assumes nv: "n \<notin> visited st" and ni: "n \<notin> set (visiting st)" and td: "get g n = Some td"
    and run: "forEach_visit g (dependencies td) (enter n st) = Inr st2"
    and post: "visit_post g (dependencies td) (enter n st) st2"
  shows "visit_post g [n] st (finish n st2)"
  unfolding visit_post_def
proof (intro impI)
  assume inv: "sort_inv g st"
  have inv1: "sort_inv g (enter n st)" using inv nv by (rule sort_inv_enter)
  have inv2: "sort_inv g st2" and vis2: "visiting st2 = visiting st @ [n]"
    and ds: "set (dependencies td) \<subseteq> visited st2"
    and gr: "grows g (set (dependencies td)) (enter n st) st2"
    using post inv1 ni by (simp_all add: visit_post_def enter_simps)
  have "sort_inv g (finish n st2)"
    using inv2 vis2 ni td ds by (rule sort_inv_finish)
  moreover have "visiting (finish n st2) = visiting st"
    using vis2 ni by (simp add: finish_simps set_delete_snoc)
  moreover have "set [n] \<subseteq> visited (finish n st2)" by (simp add: finish_simps)
  moreover have "grows g (set [n]) st (finish n st2)"
    using grows_finish [OF gr td] by simp
  ultimately show "sort_inv g (finish n st2) \<and> visiting (finish n st2) = visiting st \<and>
      set [n] \<subseteq> visited (finish n st2) \<and> grows g (set [n]) st (finish n st2)"
    by blast
qed

lemma vp_cons:
  assumes "visit g d st = Inr st1" and p1: "visit_post g [d] st st1"
    and "forEach_visit g ds st1 = Inr st'" and p2: "visit_post g ds st1 st'"
  shows "visit_post g (d # ds) st st'"
  unfolding visit_post_def
proof (intro impI)
  assume inv: "sort_inv g st"
  have inv1: "sort_inv g st1" and vis1: "visiting st1 = visiting st"
    and d1: "d \<in> visited st1" and gr1: "grows g {d} st st1"
    using p1 inv by (simp_all add: visit_post_def)
  have inv2: "sort_inv g st'" and vis2: "visiting st' = visiting st1"
    and ds2: "set ds \<subseteq> visited st'" and gr2: "grows g (set ds) st1 st'"
    using p2 inv1 by (simp_all add: visit_post_def)
  have "visited st1 \<subseteq> visited st'" using gr2 inv1 inv2 by (rule grows_visited)
  then have "set (d # ds) \<subseteq> visited st'" using d1 ds2 by auto
  moreover have "grows g (set (d # ds)) st st'"
    using gr1 gr2 by (rule grows_trans) auto
  ultimately show "sort_inv g st' \<and> visiting st' = visiting st \<and>
      set (d # ds) \<subseteq> visited st' \<and> grows g (set (d # ds)) st st'"
    using inv2 vis1 vis2 by simp
qed

lemma visit_post_visit:
  fixes g :: "'a TaskGraph"
  assumes "visit g n st = Inr st'"
  shows "visit_post g [n] st st'"
  by (rule visit_success_induct(1) [where g = g and P = "\<lambda>n. visit_post g [n]" and Q = "visit_post g"])
     (rule vp_skip, assumption, rule vp_node, assumption+, rule vp_nil, rule vp_cons,
      assumption+, rule assms)

lemma visit_post_forEach:
  fixes g :: "'a TaskGraph"
  assumes "forEach_visit g ds st = Inr st'"
  shows "visit_post g ds st st'"
  by (rule visit_success_induct(2) [where g = g and P = "\<lambda>n. visit_post g [n]" and Q = "visit_post g"])
     (rule vp_skip, assumption, rule vp_node, assumption+, rule vp_nil, rule vp_cons,
      assumption+, rule assms)


lemma sort_inv_init: "sort_inv g init_state"
  by (simp add: sort_inv_def init_state_def deps_first_def)

lemma topologicalSort_Inr:
  "topologicalSort g = Inr plan \<longleftrightarrow>
     (\<exists>st. forEach_visit g (map fst g) init_state = Inr st \<and> plan = sorted st)"
  unfolding topologicalSort_def init_state_def
  by (cases "forEach_visit g (map fst g) \<lparr>sorted = [], visited = {}, visiting = []\<rparr>") auto

lemma topologicalSort_Inl:
  "topologicalSort g = Inl e \<longleftrightarrow> forEach_visit g (map fst g) init_state = Inl e"
  unfolding topologicalSort_def init_state_def
  by (cases "forEach_visit g (map fst g) \<lparr>sorted = [], visited = {}, visiting = []\<rparr>") auto

lemma forEach_append_Inr:
  "forEach_visit g (xs @ ys) st = Inr st' \<longleftrightarrow>
     (\<exists>st1. forEach_visit g xs st = Inr st1 \<and> forEach_visit g ys st1 = Inr st')"
proof (induction xs arbitrary: st)
  case Nil
  show ?case by simp
next
  case (Cons x xs)
  show ?case
  proof (cases "visit g x st")
    case (Inl e)
    then show ?thesis by simp
  next
    case (Inr st0)
    then show ?thesis using Cons.IH [of st0] by simp
  qed
qed

lemma plan_facts:
  assumes "topologicalSort g = Inr plan"
  shows "distinct plan" and "set plan = fst ` set g" and "deps_first g plan"
proof -
  obtain st where st: "forEach_visit g (map fst g) init_state = Inr st" "plan = sorted st"
    using assms unfolding topologicalSort_Inr by blast
  have post: "sort_inv g st \<and> set (map fst g) \<subseteq> visited st"
    using visit_post_forEach [OF st(1)] sort_inv_init [of g] by (simp add: visit_post_def)
  show "distinct plan" using post st(2) by (simp add: sort_inv_def)
  show "deps_first g plan" using post st(2) by (simp add: sort_inv_def)
  show "set plan = fst ` set g" using post st(2) by (auto simp: sort_inv_def)
qed

lemma dep_rel_registered: "(t, d) \<in> dep_rel g \<Longrightarrow> t \<in> fst ` set g"
  by (cases "get g t") (simp_all add: dep_rel_def deps_def get_Some_key)

lemma plan_trancl_position:
  assumes "topologicalSort g = Inr plan" and "(t, d) \<in> (dep_rel g)\<^sup>+"
  shows "position plan d < position plan t"
  using assms(2)
proof (induction rule: trancl_induct)
  case (base d)
  have "t \<in> set plan" using base plan_facts(2) [OF assms(1)] by (simp add: dep_rel_registered)
  moreover have "d \<in> set (deps g t)" using base by (simp add: dep_rel_def)
  ultimately show ?case using plan_facts(3) [OF assms(1)] by (simp add: deps_first_position)
next
  case (step d d')
  have "d \<in> set plan" using step(2) plan_facts(2) [OF assms(1)] by (simp add: dep_rel_registered)
  moreover have "d' \<in> set (deps g d)" using step(2) by (simp add: dep_rel_def)
  ultimately have "position plan d' < position plan d"
    using plan_facts(3) [OF assms(1)] by (simp add: deps_first_position)
  then show ?case using step.IH by simp
qed

lemma plan_insertion_order:
  assumes sort: "topologicalSort g = Inr plan"
    and b: "b \<in> fst ` set g"
    and ab: "position (map fst g) a < position (map fst g) b"
    and unreach: "\<forall>k. position (map fst g) k \<le> position (map fst g) a \<longrightarrow> (k, b) \<notin> (dep_rel g)\<^sup>*"
  shows "position plan a < position plan b"
proof -
  let ?ks = "map fst g"
  let ?i = "Suc (position ?ks a)"
  obtain st where st: "forEach_visit g ?ks init_state = Inr st" "plan = sorted st"
    using sort unfolding topologicalSort_Inr by blast
  have "position ?ks b \<le> length ?ks"
    using position_less [of b ?ks] position_ge [of b ?ks] by (cases "b \<in> set ?ks") auto
  then have a_lt: "position ?ks a < length ?ks" using ab by simp
  then have a_in: "a \<in> set ?ks" using position_ge [of a ?ks] by (cases "a \<in> set ?ks") auto
  have "forEach_visit g (take ?i ?ks @ drop ?i ?ks) init_state = Inr st"
    using st(1) by simp
  then obtain st1 where st1: "forEach_visit g (take ?i ?ks) init_state = Inr st1"
      "forEach_visit g (drop ?i ?ks) st1 = Inr st"
    unfolding forEach_append_Inr by blast
  have p1: "sort_inv g st1" "set (take ?i ?ks) \<subseteq> visited st1"
      "grows g (set (take ?i ?ks)) init_state st1"
    using visit_post_forEach [OF st1(1)] sort_inv_init [of g] by (simp_all add: visit_post_def)
  have p2: "grows g (set (drop ?i ?ks)) st1 st"
    using visit_post_forEach [OF st1(2)] p1(1) by (simp add: visit_post_def)
  have "a = ?ks ! position ?ks a" using a_in by (simp add: nth_position)
  then have "a \<in> set (take ?i ?ks)"
    using a_lt by (simp add: take_Suc_conv_app_nth)
  then have a1: "a \<in> set (sorted st1)" using p1(1,2) by (auto simp: sort_inv_def)
  have b1: "b \<notin> set (sorted st1)"
  proof
    assume "b \<in> set (sorted st1)"
    then obtain k where k: "k \<in> set (take ?i ?ks)" "(k, b) \<in> (dep_rel g)\<^sup>*"
      using p1(3) by (auto simp: grows_def init_state_def)
    have "position ?ks k < ?i" using k(1) by (rule position_take)
    then show False using unreach k(2) by simp
  qed
  obtain zs where zs: "plan = sorted st1 @ zs"
    using p2 st(2) by (auto simp: grows_def)
  have "position plan a = position (sorted st1) a"
    using a1 zs by (simp add: position_append_in)
  moreover have "position (sorted st1) a < length (sorted st1)" using a1 by (rule position_less)
  moreover have "position plan b = length (sorted st1) + position zs b"
    using b1 zs by (simp add: position_append_notin)
  ultimately show ?thesis by simp
qed


section \<open>The plan of a successful sort\<close>

lemma tie_graph_sort: "topologicalSort tie_graph = Inr [''C'', ''A'', ''B'']"
  by (simp add: topologicalSort_def tie_graph_def visit.simps get_def set_add_def set_delete_def)

lemma tie_graph_dep_rel: "dep_rel tie_graph = {(''A'', ''C'')}"
  by (auto simp: dep_rel_def deps_def get_def tie_graph_def split: if_splits)

lemma singleton_trancl: "(a, b) \<in> {(x, y)}\<^sup>+ \<Longrightarrow> a = x \<and> b = y"
  by (induction rule: trancl_induct) auto

lemma singleton_rtrancl: "(a, b) \<in> {(x, y)}\<^sup>* \<Longrightarrow> a = b \<or> (a = x \<and> b = y)"
  by (induction rule: rtrancl_induct) auto

text \<open>
  Claim C1, as the code has it. When \<open>topologicalSort\<close> succeeds, the plan holds every
  registered name exactly once, and every direct or transitive dependency of a task
  stands strictly before the task. Insertion order decides as follows: a task \<open>a\<close>
  registered before a task \<open>b\<close> precedes \<open>b\<close> in the plan, unless \<open>b\<close> is \<open>a\<close>'s
  dependency or the dependency (direct or transitive) of a task registered before
  \<open>a\<close>. \<open>execute\<close> and \<open>executeParallel\<close> run over this plan.
\<close>

theorem topologicalSort_plan:
  assumes "topologicalSort g = Inr plan"
  shows "distinct plan \<and> set plan = fst ` set g \<and>
    (\<forall>t d. (t, d) \<in> (dep_rel g)\<^sup>+ \<longrightarrow> position plan d < position plan t) \<and>
    (\<forall>a b. b \<in> fst ` set g \<and> position (map fst g) a < position (map fst g) b \<and>
        (\<forall>k. position (map fst g) k \<le> position (map fst g) a \<longrightarrow> (k, b) \<notin> (dep_rel g)\<^sup>*)
        \<longrightarrow> position plan a < position plan b)"
proof (intro conjI allI impI)
  show "distinct plan" using assms by (rule plan_facts(1))
  show "set plan = fst ` set g" using assms by (rule plan_facts(2))
next
  fix t d
  assume "(t, d) \<in> (dep_rel g)\<^sup>+"
  with assms show "position plan d < position plan t" by (rule plan_trancl_position)
next
  fix a b
  assume h: "b \<in> fst ` set g \<and> position (map fst g) a < position (map fst g) b \<and>
        (\<forall>k. position (map fst g) k \<le> position (map fst g) a \<longrightarrow> (k, b) \<notin> (dep_rel g)\<^sup>*)"
  show "position plan a < position plan b"
    using assms h [THEN conjunct1] h [THEN conjunct2, THEN conjunct1]
      h [THEN conjunct2, THEN conjunct2]
    by (rule plan_insertion_order)
qed

text \<open>
  The theorem at the graph \<open>A \<rightarrow> C\<close>, \<open>B\<close>, \<open>C\<close>: the plan is \<open>C, A, B\<close>.
\<close>

theorem topologicalSort_plan_witness:
  "topologicalSort tie_graph = Inr [''C'', ''A'', ''B''] \<and>
   distinct [''C'', ''A'', ''B''] \<and>
   set [''C'', ''A'', ''B''] = fst ` set tie_graph \<and>
   (''A'', ''C'') \<in> (dep_rel tie_graph)\<^sup>+ \<and>
   position [''C'', ''A'', ''B''] ''C'' < position [''C'', ''A'', ''B''] ''A'' \<and>
   ''B'' \<in> fst ` set tie_graph \<and>
   position (map fst tie_graph) ''A'' < position (map fst tie_graph) ''B'' \<and>
   \<not> (\<exists>k. position (map fst tie_graph) k \<le> position (map fst tie_graph) ''A'' \<and>
          (k, ''B'') \<in> (dep_rel tie_graph)\<^sup>*) \<and>
   position [''C'', ''A'', ''B''] ''A'' < position [''C'', ''A'', ''B''] ''B''"
proof -
  note main = topologicalSort_plan [OF tie_graph_sort]
  have edge: "(''A'', ''C'') \<in> (dep_rel tie_graph)\<^sup>+"
    unfolding tie_graph_dep_rel by (rule r_into_trancl) simp
  have b: "''B'' \<in> fst ` set tie_graph" by (simp add: tie_graph_def)
  have ab: "position (map fst tie_graph) ''A'' < position (map fst tie_graph) ''B''"
    by (simp add: tie_graph_def)
  have un: "\<forall>k. position (map fst tie_graph) k \<le> position (map fst tie_graph) ''A''
      \<longrightarrow> (k, ''B'') \<notin> (dep_rel tie_graph)\<^sup>*"
  proof (intro allI impI)
    fix k
    assume "position (map fst tie_graph) k \<le> position (map fst tie_graph) ''A''"
    then have k: "k = ''A''" by (simp add: tie_graph_def split: if_splits)
    show "(k, ''B'') \<notin> (dep_rel tie_graph)\<^sup>*"
    proof
      assume "(k, ''B'') \<in> (dep_rel tie_graph)\<^sup>*"
      then have "k = ''B'' \<or> (k = ''A'' \<and> ''B'' = ''C'')"
        unfolding tie_graph_dep_rel by (rule singleton_rtrancl)
      then show False using k by simp
    qed
  qed
  have nex: "\<not> (\<exists>k. position (map fst tie_graph) k \<le> position (map fst tie_graph) ''A'' \<and>
          (k, ''B'') \<in> (dep_rel tie_graph)\<^sup>*)"
    using un by blast
  have d1: "distinct [''C'', ''A'', ''B'']"
    by (rule main [THEN conjunct1])
  have d2: "set [''C'', ''A'', ''B''] = fst ` set tie_graph"
    by (rule main [THEN conjunct2, THEN conjunct1])
  have p1: "position [''C'', ''A'', ''B''] ''C'' < position [''C'', ''A'', ''B''] ''A''"
    by (rule main [THEN conjunct2, THEN conjunct2, THEN conjunct1, rule_format, OF edge])
  have p2: "position [''C'', ''A'', ''B''] ''A'' < position [''C'', ''A'', ''B''] ''B''"
    by (rule main [THEN conjunct2, THEN conjunct2, THEN conjunct2, rule_format,
          OF conjI [OF b conjI [OF ab un]]])
  show ?thesis
    by (intro conjI) (rule tie_graph_sort d1 d2 edge p1 b ab nex p2)+
qed

text \<open>
  Claim C1 as it is worded fails on the same graph: \<open>B\<close> and \<open>C\<close> are not related by
  the dependency relation and \<open>B\<close> was registered first, yet \<open>C\<close> precedes \<open>B\<close> in the
  plan, because \<open>A\<close>, registered before both, pulls \<open>C\<close> forward.
\<close>

theorem insertion_order_ties_counterexample:
  "topologicalSort tie_graph = Inr [''C'', ''A'', ''B''] \<and>
   (''B'', ''C'') \<notin> (dep_rel tie_graph)\<^sup>+ \<and> (''C'', ''B'') \<notin> (dep_rel tie_graph)\<^sup>+ \<and>
   position (map fst tie_graph) ''B'' < position (map fst tie_graph) ''C'' \<and>
   position [''C'', ''A'', ''B''] ''C'' < position [''C'', ''A'', ''B''] ''B''"
proof -
  have c1: "(''B'', ''C'') \<notin> (dep_rel tie_graph)\<^sup>+"
  proof
    assume "(''B'', ''C'') \<in> (dep_rel tie_graph)\<^sup>+"
    then have "''B'' = ''A'' \<and> ''C'' = ''C''"
      unfolding tie_graph_dep_rel by (rule singleton_trancl)
    then show False by simp
  qed
  have c2: "(''C'', ''B'') \<notin> (dep_rel tie_graph)\<^sup>+"
  proof
    assume "(''C'', ''B'') \<in> (dep_rel tie_graph)\<^sup>+"
    then have "''C'' = ''A'' \<and> ''B'' = ''C''"
      unfolding tie_graph_dep_rel by (rule singleton_trancl)
    then show False by simp
  qed
  have c3: "position (map fst tie_graph) ''B'' < position (map fst tie_graph) ''C''"
    by (simp add: tie_graph_def)
  have c4: "position [''C'', ''A'', ''B''] ''C'' < position [''C'', ''A'', ''B''] ''B''"
    by simp
  show ?thesis
    by (intro conjI) (rule tie_graph_sort c1 c2 c3 c4)+
qed


section \<open>Sequential execution fails fast\<close>

lemma execute_loop_append:
  "execute_loop g (xs @ ys) s log =
     (case execute_loop g xs s log of
        (Inr u, s1, log1) \<Rightarrow> execute_loop g ys s1 log1
      | (Inl e, s1, log1) \<Rightarrow> (Inl e, s1, log1))"
proof (induction xs arbitrary: s log)
  case Nil
  show ?case by simp
next
  case (Cons x xs)
  show ?case
  proof (cases "get g x")
    case None
    then show ?thesis by simp
  next
    case (Some td)
    obtain s' r where r: "task td s = (s', r)" by (cases "task td s")
    show ?thesis
    proof (cases r)
      case None
      then show ?thesis using Some r Cons.IH [of s' "log @ [x]"] by simp
    next
      case (Some e)
      then show ?thesis using \<open>get g x = Some td\<close> r by simp
    qed
  qed
qed

lemma execute_loop_fulfil:
  "fulfil_all g xs s = Some s1 \<Longrightarrow> execute_loop g xs s log = (Inr (), s1, log @ xs)"
proof (induction xs arbitrary: s log)
  case Nil
  then show ?case by simp
next
  case (Cons x xs)
  obtain td where td: "get g x = Some td"
    using Cons.prems by (cases "get g x") simp_all
  obtain s' r where r: "task td s = (s', r)" by (cases "task td s")
  have none: "r = None" and rest: "fulfil_all g xs s' = Some s1"
    using Cons.prems td r by (simp_all split: if_splits)
  have "execute_loop g xs s' (log @ [x]) = (Inr (), s1, (log @ [x]) @ xs)"
    using rest by (rule Cons.IH)
  then show ?case using td r none by simp
qed

text \<open>
  Claim C4. Let the plan be \<open>pre @ B # post\<close>, let the actions of \<open>pre\<close> all fulfil
  when run one after the other from the state \<open>s\<close>, and let the action of \<open>B\<close> reject
  with \<open>e\<close> in the state they leave. Then \<open>execute\<close> rejects with an aggregate error
  that names \<open>B\<close> and has \<open>e\<close> as its single cause; the actions invoked are exactly
  those of \<open>pre\<close> and then \<open>B\<close>, in plan order, and no task of \<open>post\<close> is among them.
\<close>

theorem execute_fail_fast:
  assumes sort: "topologicalSort g = Inr (pre @ B # post)"
    and before: "fulfil_all g pre s = Some s1"
    and td: "get g B = Some td"
    and fails: "task td s1 = (s2, Some e)"
  shows "execute g s =
           (Inl (AggregateError [e] (''Task '' @ dquote @ B @ dquote @ '' failed'')),
            s2, pre @ [B]) \<and>
         set post \<inter> set (pre @ [B]) = {}"
proof
  have "execute g s = execute_loop g (pre @ B # post) s []"
    using sort by (simp add: execute_def)
  also have "\<dots> = execute_loop g (B # post) s1 pre"
    using execute_loop_fulfil [OF before, of "[]"] by (simp add: execute_loop_append)
  also have "\<dots> = (Inl (AggregateError [e] (''Task '' @ dquote @ B @ dquote @ '' failed'')),
            s2, pre @ [B])"
    using td fails by simp
  finally show "execute g s =
      (Inl (AggregateError [e] (''Task '' @ dquote @ B @ dquote @ '' failed'')), s2, pre @ [B])" .
  have "distinct (pre @ B # post)" using sort by (rule plan_facts(1))
  then show "set post \<inter> set (pre @ [B]) = {}" by auto
qed

lemma seq_graph_sort: "topologicalSort seq_graph = Inr ([''A''] @ ''B'' # [''C''])"
  by (simp add: topologicalSort_def seq_graph_def visit.simps get_def set_add_def set_delete_def)

text \<open>The theorem at the chain \<open>A\<close>, \<open>B\<close>, \<open>C\<close> where \<open>B\<close> rejects.\<close>

theorem execute_fail_fast_witness:
  "topologicalSort seq_graph = Inr [''A'', ''B'', ''C''] \<and>
   fulfil_all seq_graph [''A''] [] = Some [''a''] \<and>
   map_option (\<lambda>td. task td [''a'']) (get seq_graph ''B'') =
     Some ([''a'', ''b''], Some (Error ''boom'')) \<and>
   execute seq_graph [] =
     (Inl (AggregateError [Error ''boom''] (''Task '' @ dquote @ ''B'' @ dquote @ '' failed'')),
      [''a'', ''b''], [''A'', ''B'']) \<and>
   set [''C''] \<inter> set [''A'', ''B''] = {}"
proof -
  let ?tdB = "\<lparr>name = ''B'', dependencies = [''A''],
              task = (\<lambda>s. (s @ [''b''], Some (Error ''boom'')))\<rparr> :: string list Task TaskDescriptor"
  have before: "fulfil_all seq_graph [''A''] [] = Some [''a'']"
    by (simp add: seq_graph_def get_def)
  have td: "get seq_graph ''B'' = Some ?tdB"
    by (simp add: seq_graph_def get_def)
  have fails: "task ?tdB [''a''] = ([''a'', ''b''], Some (Error ''boom''))"
    by simp
  note main = execute_fail_fast [OF seq_graph_sort before td fails]
  have c1: "topologicalSort seq_graph = Inr [''A'', ''B'', ''C'']"
    using seq_graph_sort by simp
  have c3: "map_option (\<lambda>td. task td [''a'']) (get seq_graph ''B'') =
     Some ([''a'', ''b''], Some (Error ''boom''))"
    using td by simp
  have c4: "execute seq_graph [] =
     (Inl (AggregateError [Error ''boom''] (''Task '' @ dquote @ ''B'' @ dquote @ '' failed'')),
      [''a'', ''b''], [''A'', ''B''])"
    using main [THEN conjunct1] by simp
  have c5: "set [''C''] \<inter> set [''A'', ''B''] = {}"
    using main [THEN conjunct2] by simp
  show ?thesis
    by (intro conjI) (rule c1 before c3 c4 c5)+
qed

section \<open>The parallel executor\<close>

lemma par_invD:
  assumes "par_inv fr settles g ps" and "n \<in> fst ` set (taskPromises ps)"
  shows "get g n \<noteq> None" and "set (deps g n) \<subseteq> fst ` set (taskPromises ps)"
    and "map_of (taskPromises ps) n =
          Some (unit_result fr settles (taskPromises ps) (deps g n) n)"
    and "n \<in> invoked ps \<longleftrightarrow>
           promise_all fr (map (map_of (taskPromises ps)) (deps g n)) = Fulfilled"
  using assms unfolding par_inv_def by blast+

lemma loop_Cons:
  assumes "get g n = Some td"
  shows "executeParallel_loop fr settles g (n # rest) ps =
         executeParallel_loop fr settles g rest (par_step fr settles (deps g n) n ps)"
proof (cases "promise_all fr (map (map_of (taskPromises ps)) (dependencies td))")
  case Fulfilled
  then show ?thesis
    using assms by (simp add: par_step_def executeTask_def unit_result_def deps_def)
next
  case (Rejected e)
  then show ?thesis
    using assms by (simp add: par_step_def executeTask_def unit_result_def deps_def)
qed

lemma update_fresh: "n \<notin> fst ` set al \<Longrightarrow> AList.update n v al = al @ [(n, v)]"
  by (induction al) auto

lemma map_of_snoc_old: "d \<in> fst ` set al \<Longrightarrow> map_of (al @ [(n, v)]) d = map_of al d"
  by (induction al) auto

lemma map_of_snoc_new: "n \<notin> fst ` set al \<Longrightarrow> map_of (al @ [(n, v)]) n = Some v"
  by (induction al) auto

lemma lookups_snoc:
  assumes "set ds \<subseteq> fst ` set al"
  shows "map (map_of (al @ [(n, v)])) ds = map (map_of al) ds"
  using assms by (intro map_cong refl map_of_snoc_old) auto

lemma par_inv_step:
  assumes inv: "par_inv fr settles g ps" and reg: "get g n \<noteq> None"
    and fresh: "n \<notin> fst ` set (taskPromises ps)"
    and ds: "set (deps g n) \<subseteq> fst ` set (taskPromises ps)"
  shows "par_inv fr settles g (par_step fr settles (deps g n) n ps)"
    and "map fst (taskPromises (par_step fr settles (deps g n) n ps)) =
         map fst (taskPromises ps) @ [n]"
proof -
  let ?tp = "taskPromises ps"
  let ?r = "unit_result fr settles ?tp (deps g n) n"
  let ?ps' = "par_step fr settles (deps g n) n ps"
  have tp': "taskPromises ?ps' = ?tp @ [(n, ?r)]"
    using fresh by (simp add: par_step_def update_fresh)
  show "map fst (taskPromises ?ps') = map fst ?tp @ [n]" by (simp add: tp')
  have keys': "fst ` set (taskPromises ?ps') = insert n (fst ` set ?tp)"
    by (simp add: tp')
  have same: "\<And>ds. set ds \<subseteq> fst ` set ?tp \<Longrightarrow>
      map (map_of (taskPromises ?ps')) ds = map (map_of ?tp) ds"
    unfolding tp' by (rule lookups_snoc)
  have inv_sub: "invoked ps \<subseteq> fst ` set ?tp" using inv by (simp add: par_inv_def)
  have n_inv: "n \<notin> invoked ps" using inv_sub fresh by blast
  show "par_inv fr settles g ?ps'"
    unfolding par_inv_def
  proof (rule conjI)
    have "invoked ?ps' \<subseteq> insert n (invoked ps)"
      by (auto simp: par_step_def)
    then show "invoked ?ps' \<subseteq> fst ` set (taskPromises ?ps')"
      using inv_sub unfolding keys' by blast
  next
    show "\<forall>m \<in> fst ` set (taskPromises ?ps').
        get g m \<noteq> None \<and> set (deps g m) \<subseteq> fst ` set (taskPromises ?ps') \<and>
        map_of (taskPromises ?ps') m =
          Some (unit_result fr settles (taskPromises ?ps') (deps g m) m) \<and>
        (m \<in> invoked ?ps' \<longleftrightarrow>
           promise_all fr (map (map_of (taskPromises ?ps')) (deps g m)) = Fulfilled)"
    proof (rule ballI)
    fix m
    assume "m \<in> fst ` set (taskPromises ?ps')"
    then consider "m = n" | "m \<noteq> n" "m \<in> fst ` set ?tp" by (auto simp: keys')
    then show "get g m \<noteq> None \<and> set (deps g m) \<subseteq> fst ` set (taskPromises ?ps') \<and>
        map_of (taskPromises ?ps') m =
          Some (unit_result fr settles (taskPromises ?ps') (deps g m) m) \<and>
        (m \<in> invoked ?ps' \<longleftrightarrow>
           promise_all fr (map (map_of (taskPromises ?ps')) (deps g m)) = Fulfilled)"
    proof cases
      case 1
      have "map_of (taskPromises ?ps') n = Some ?r"
        unfolding tp' using fresh by (rule map_of_snoc_new)
      moreover have "unit_result fr settles (taskPromises ?ps') (deps g n) n = ?r"
        by (simp add: unit_result_def same [OF ds])
      moreover have "n \<in> invoked ?ps' \<longleftrightarrow>
          promise_all fr (map (map_of ?tp) (deps g n)) = Fulfilled"
        using n_inv by (simp add: par_step_def)
      ultimately show ?thesis
        using 1 reg ds by (simp add: same [OF ds] keys' subset_insertI2)
    next
      case 2
      have old: "get g m \<noteq> None" "set (deps g m) \<subseteq> fst ` set ?tp"
          "map_of ?tp m = Some (unit_result fr settles ?tp (deps g m) m)"
          "m \<in> invoked ps \<longleftrightarrow> promise_all fr (map (map_of ?tp) (deps g m)) = Fulfilled"
        using par_invD [OF inv 2(2)] by blast+
      have "map_of (taskPromises ?ps') m = map_of ?tp m"
        unfolding tp' using 2(2) by (rule map_of_snoc_old)
      moreover have "unit_result fr settles (taskPromises ?ps') (deps g m) m =
          unit_result fr settles ?tp (deps g m) m"
        by (simp add: unit_result_def same [OF old(2)])
      moreover have "m \<in> invoked ?ps' \<longleftrightarrow> m \<in> invoked ps"
        using 2(1) by (simp add: par_step_def)
      ultimately show ?thesis
        using old by (simp add: same [OF old(2)] keys' subset_insertI2)
    qed
    qed
  qed
qed

lemma par_loop_inv:
  assumes "scheduled_ok g (fst ` set (taskPromises ps0)) ns" and "par_inv fr settles g ps0"
  shows "\<exists>ps. executeParallel_loop fr settles g ns ps0 = Inr ps \<and> par_inv fr settles g ps \<and>
           map fst (taskPromises ps) = map fst (taskPromises ps0) @ ns"
  using assms
proof (induction ns arbitrary: ps0)
  case Nil
  then show ?case by simp
next
  case (Cons n ns)
  let ?ps1 = "par_step fr settles (deps g n) n ps0"
  have h: "get g n \<noteq> None" "n \<notin> fst ` set (taskPromises ps0)"
      "set (deps g n) \<subseteq> fst ` set (taskPromises ps0)"
      "scheduled_ok g (insert n (fst ` set (taskPromises ps0))) ns"
    using Cons.prems(1) by simp_all
  obtain td where td: "get g n = Some td" using h(1) by blast
  have inv1: "par_inv fr settles g ?ps1"
    and keys1: "map fst (taskPromises ?ps1) = map fst (taskPromises ps0) @ [n]"
    using par_inv_step [OF Cons.prems(2) h(1) h(2) h(3)] by blast+
  have "fst ` set (taskPromises ?ps1) = insert n (fst ` set (taskPromises ps0))"
    using arg_cong [OF keys1, of set] by simp
  then have "scheduled_ok g (fst ` set (taskPromises ?ps1)) ns" using h(4) by simp
  from Cons.IH [OF this inv1] obtain ps where
    ps: "executeParallel_loop fr settles g ns ?ps1 = Inr ps" "par_inv fr settles g ps"
      "map fst (taskPromises ps) = map fst (taskPromises ?ps1) @ ns"
    by blast
  have "executeParallel_loop fr settles g (n # ns) ps0 = Inr ps"
    using ps(1) by (simp only: loop_Cons [OF td])
  moreover have "map fst (taskPromises ps) = map fst (taskPromises ps0) @ n # ns"
    using ps(3) keys1 by simp
  ultimately show ?case using ps(2) by blast
qed

lemma scheduled_ok_plan_aux:
  assumes "distinct (pre @ ns)" and "deps_first g (pre @ ns)" and "set (pre @ ns) \<subseteq> fst ` set g"
  shows "scheduled_ok g (set pre) ns"
  using assms
proof (induction ns arbitrary: pre)
  case Nil
  show ?case by simp
next
  case (Cons n ns)
  have "length pre < length (pre @ n # ns)" by simp
  then have "set (deps g ((pre @ n # ns) ! length pre)) \<subseteq> set (take (length pre) (pre @ n # ns))"
    using Cons.prems(2) unfolding deps_first_def by blast
  then have d: "set (deps g n) \<subseteq> set pre" by simp
  have "n \<in> fst ` set g" using Cons.prems(3) by simp
  then have reg: "get g n \<noteq> None"
    by (simp add: get_def map_of_eq_None_iff)
  have fresh: "n \<notin> set pre" using Cons.prems(1) by simp
  have "scheduled_ok g (set (pre @ [n])) ns"
    using Cons.prems by (intro Cons.IH) simp_all
  then show ?case using d reg fresh by simp
qed

lemma scheduled_ok_plan:
  assumes "topologicalSort g = Inr plan"
  shows "scheduled_ok g {} plan"
  using scheduled_ok_plan_aux [of "[]" plan g] plan_facts [OF assms] by simp

lemma par_units:
  assumes "topologicalSort g = Inr plan"
  shows "\<exists>ps. executeParallel_loop fr settles g plan \<lparr>taskPromises = [], invoked = {}\<rparr> = Inr ps \<and>
           par_inv fr settles g ps \<and> map fst (taskPromises ps) = plan"
proof -
  have "par_inv fr settles g par_init" by (simp add: par_inv_def par_init_def)
  moreover have "scheduled_ok g (fst ` set (taskPromises par_init)) plan"
    using scheduled_ok_plan [OF assms] by (simp add: par_init_def)
  ultimately show ?thesis
    using par_loop_inv [of g par_init plan fr settles] by (simp add: par_init_def)
qed

lemma reasons_of_simps:
  "reasons_of [] = []"
  "reasons_of (Fulfilled # rs) = reasons_of rs"
  "reasons_of (Rejected e # rs) = e # reasons_of rs"
  by (simp_all add: reasons_of_def)

lemma reasons_of_filter: "reasons_of (filter isRejected rs) = reasons_of rs"
proof (induction rs)
  case Nil
  show ?case by simp
next
  case (Cons r rs)
  then show ?case by (cases r) (simp_all add: reasons_of_simps isRejected_def)
qed

lemma length_reasons_of: "length (reasons_of rs) = length (filter isRejected rs)"
proof (induction rs)
  case Nil
  show ?case by (simp add: reasons_of_simps)
next
  case (Cons r rs)
  then show ?case by (cases r) (simp_all add: reasons_of_simps isRejected_def)
qed

lemma set_reasons_of: "e \<in> set (reasons_of rs) \<longleftrightarrow> Rejected e \<in> set rs"
proof (induction rs)
  case Nil
  show ?case by (simp add: reasons_of_simps)
next
  case (Cons r rs)
  then show ?case by (cases r) (auto simp: reasons_of_simps)
qed

lemma count_reasons_of: "count_list (reasons_of rs) e = count_list rs (Rejected e)"
proof (induction rs)
  case Nil
  show ?case by (simp add: reasons_of_simps)
next
  case (Cons r rs)
  then show ?case by (cases r) (simp_all add: reasons_of_simps)
qed

lemma executeParallel_eq:
  assumes "topologicalSort g = Inr plan"
    and "executeParallel_loop fr settles g plan \<lparr>taskPromises = [], invoked = {}\<rparr> = Inr ps"
  shows "executeParallel fr settles g =
     (if reasons_of (map snd (taskPromises ps)) = [] then Inr ()
      else Inl (AggregateError (reasons_of (map snd (taskPromises ps)))
             (show_nat (length (reasons_of (map snd (taskPromises ps)))) @ '' tasks failed'')),
      invoked ps)"
proof -
  let ?rs = "map snd (taskPromises ps)"
  have l: "length (filter isRejected ?rs) = length (reasons_of ?rs)"
    by (simp add: length_reasons_of)
  have r: "[e. Rejected e \<leftarrow> filter isRejected ?rs] = reasons_of ?rs"
    using reasons_of_filter [of ?rs] by (simp add: reasons_of_def)
  have "executeParallel fr settles g =
      (if length (reasons_of ?rs) \<noteq> 0
       then (Inl (AggregateError (reasons_of ?rs)
                   (show_nat (length (reasons_of ?rs)) @ '' tasks failed'')), invoked ps)
       else (Inr (), invoked ps))"
    by (simp only: executeParallel_def assms sum.case Let_def l r)
  then show ?thesis by simp
qed

lemma promise_all_Fulfilled_iff:
  "promise_all fr ps = Fulfilled \<longleftrightarrow> (\<forall>e. Some (Rejected e) \<notin> set ps)"
proof -
  have "[e. Some (Rejected e) \<leftarrow> ps] = [] \<longleftrightarrow> (\<forall>e. Some (Rejected e) \<notin> set ps)"
  proof (induction ps)
    case Nil
    show ?case by simp
  next
    case (Cons p ps)
    show ?case
    proof (cases p)
      case None
      then show ?thesis using Cons by simp
    next
      case (Some r)
      then show ?thesis using Cons by (cases r) auto
    qed
  qed
  then show ?thesis by (simp add: promise_all_def Let_def)
qed

lemma promise_all_Rejected:
  assumes "promise_all fr ps = Rejected e" and "\<forall>es. es \<noteq> [] \<longrightarrow> fr es \<in> set es"
  shows "Some (Rejected e) \<in> set ps"
proof -
  let ?rs = "[e. Some (Rejected e) \<leftarrow> ps]"
  have mem: "\<And>x. x \<in> set ?rs \<Longrightarrow> Some (Rejected x) \<in> set ps"
  proof (induction ps)
    case Nil
    then show ?case by simp
  next
    case (Cons p ps)
    show ?case
    proof (cases p)
      case None
      then show ?thesis using Cons by simp
    next
      case (Some r)
      then show ?thesis using Cons by (cases r) auto
    qed
  qed
  have "?rs \<noteq> []" and "e = fr ?rs"
    using assms(1) by (auto simp: promise_all_def Let_def split: if_splits)
  then have "e \<in> set ?rs" using assms(2) by blast
  then show ?thesis by (rule mem)
qed

lemma alist_by_keys:
  "distinct (map fst xs) \<Longrightarrow> map (\<lambda>k. (k, the (map_of xs k))) (map fst xs) = xs"
proof (induction xs)
  case Nil
  show ?case by simp
next
  case (Cons x xs)
  obtain a b where x: "x = (a, b)" by (cases x)
  have a: "a \<notin> fst ` set xs" and dx: "distinct (map fst xs)"
    using Cons.prems x by auto
  have eq: "map (\<lambda>k. (k, the (map_of (x # xs) k))) (map fst xs) =
        map (\<lambda>k. (k, the (map_of xs k))) (map fst xs)"
  proof (rule map_cong [OF refl])
    fix k assume "k \<in> set (map fst xs)"
    then have "k \<noteq> a" using a by auto
    then show "(k, the (map_of (x # xs) k)) = (k, the (map_of xs k))" by (simp add: x)
  qed
  have "map (\<lambda>k. (k, the (map_of (x # xs) k))) (map fst (x # xs)) =
        (a, b) # map (\<lambda>k. (k, the (map_of (x # xs) k))) (map fst xs)"
    by (simp add: x)
  also have "\<dots> = (a, b) # map (\<lambda>k. (k, the (map_of xs k))) (map fst xs)"
    by (simp only: eq)
  also have "\<dots> = (a, b) # xs"
    by (simp only: Cons.IH [OF dx])
  finally show ?case by (simp only: x)
qed

lemma forEach_no_deps:
  assumes "\<forall>n \<in> set ks. get g n \<noteq> None \<and> deps g n = []" and "distinct ks"
    and "set ks \<inter> visited st = {}" and "visiting st = []"
  shows "forEach_visit g ks st =
         Inr (st\<lparr>visited := visited st \<union> set ks, sorted := sorted st @ ks\<rparr>)"
  using assms
proof (induction ks arbitrary: st)
  case Nil
  show ?case by simp
next
  case (Cons n ks)
  obtain td where td: "get g n = Some td" "dependencies td = []"
    using Cons.prems(1) by (auto simp: deps_def)
  let ?st1 = "st\<lparr>visited := insert n (visited st), sorted := sorted st @ [n]\<rparr>"
  have v: "visit g n st = Inr ?st1"
    using Cons.prems(3,4) td
    by (simp add: visit.simps set_add_def set_delete_def)
  have "forEach_visit g ks ?st1 =
      Inr (?st1\<lparr>visited := visited ?st1 \<union> set ks, sorted := sorted ?st1 @ ks\<rparr>)"
    using Cons.prems by (intro Cons.IH) auto
  then show ?case using v by simp
qed

lemma no_deps_sort:
  assumes "distinct (map fst g)" and "\<forall>(n, td) \<in> set g. dependencies td = []"
  shows "topologicalSort g = Inr (map fst g)"
proof -
  have "\<forall>n \<in> set (map fst g). get g n \<noteq> None \<and> deps g n = []"
  proof
    fix n assume "n \<in> set (map fst g)"
    then obtain td where "(n, td) \<in> set g" by auto
    then have "map_of g n = Some td" "dependencies td = []"
      using assms by auto
    then show "get g n \<noteq> None \<and> deps g n = []" by (simp add: get_def deps_def)
  qed
  then have "forEach_visit g (map fst g) init_state =
      Inr (init_state\<lparr>visited := visited init_state \<union> set (map fst g),
                      sorted := sorted init_state @ map fst g\<rparr>)"
    using assms(1) by (intro forEach_no_deps) (simp_all add: init_state_def)
  then show ?thesis by (simp add: topologicalSort_Inr init_state_def)
qed

section \<open>What the parallel executor guarantees\<close>

lemma units_of_plan:
  assumes sort: "topologicalSort g = Inr plan"
  obtains ps where
    "executeParallel_loop fr settles g plan \<lparr>taskPromises = [], invoked = {}\<rparr> = Inr ps"
    "par_inv fr settles g ps" "map fst (taskPromises ps) = plan"
    "fst ` set (taskPromises ps) = fst ` set g"
proof -
  obtain ps where ps:
    "executeParallel_loop fr settles g plan \<lparr>taskPromises = [], invoked = {}\<rparr> = Inr ps"
    "par_inv fr settles g ps" "map fst (taskPromises ps) = plan"
    using par_units [OF sort, of fr settles] by blast
  have "fst ` set (taskPromises ps) = set plan"
    using arg_cong [OF ps(3), of set] by simp
  then have "fst ` set (taskPromises ps) = fst ` set g"
    using plan_facts(2) [OF sort] by simp
  with ps show ?thesis by (rule that)
qed

lemma lookup_in_keys:
  assumes "d \<in> fst ` set tp"
  shows "\<exists>r. map_of tp d = Some r"
  using assms by (cases "map_of tp d") (auto simp: map_of_eq_None_iff)

text \<open>
  Claim C5. When no registered task declares a dependency, \<open>executeParallel\<close> invokes the
  action of every task, whatever the others do. Its result is computed from the settled
  results of all the units: it succeeds when every action fulfils, and otherwise rejects
  with an aggregate error whose causes are exactly the reasons of the rejected actions,
  in registration order, and whose message counts them.
\<close>

theorem executeParallel_independent:
  assumes keys: "distinct (map fst g)"
    and free: "\<forall>(n, td) \<in> set g. dependencies td = []"
  shows "executeParallel first_rejected settles g =
     (if \<forall>n \<in> fst ` set g. settles n = Fulfilled then Inr ()
      else Inl (AggregateError (reasons_of (map settles (map fst g)))
             (show_nat (length (filter isRejected (map settles (map fst g)))) @ '' tasks failed'')),
      fst ` set g)"
proof -
  have sort: "topologicalSort g = Inr (map fst g)" using keys free by (rule no_deps_sort)
  obtain ps where ps:
    "executeParallel_loop first_rejected settles g (map fst g) \<lparr>taskPromises = [], invoked = {}\<rparr> = Inr ps"
    "par_inv first_rejected settles g ps" "map fst (taskPromises ps) = map fst g"
    "fst ` set (taskPromises ps) = fst ` set g"
    using units_of_plan [OF sort] by blast
  let ?tp = "taskPromises ps"
  have nodeps: "\<And>n. n \<in> fst ` set g \<Longrightarrow> deps g n = []"
  proof -
    fix n assume "n \<in> fst ` set g"
    then obtain td where "(n, td) \<in> set g" by auto
    then have "map_of g n = Some td" "dependencies td = []" using keys free by auto
    then show "deps g n = []" by (simp add: deps_def get_def)
  qed
  have all: "promise_all first_rejected [] = Fulfilled" by (simp add: promise_all_def)
  have unit: "\<And>n. n \<in> fst ` set g \<Longrightarrow> map_of ?tp n = Some (settles n) \<and> n \<in> invoked ps"
  proof -
    fix n assume n: "n \<in> fst ` set g"
    then have k: "n \<in> fst ` set ?tp" using ps(4) by simp
    show "map_of ?tp n = Some (settles n) \<and> n \<in> invoked ps"
      using par_invD(3,4) [OF ps(2) k] nodeps [OF n] all by (simp add: unit_result_def)
  qed
  have "map (\<lambda>k. (k, the (map_of ?tp k))) (map fst ?tp) = ?tp"
    using keys ps(3) by (intro alist_by_keys) simp
  moreover have "map (\<lambda>k. (k, the (map_of ?tp k))) (map fst g) = map (\<lambda>k. (k, settles k)) (map fst g)"
    by (rule map_cong [OF refl]) (use unit in auto)
  ultimately have tp: "?tp = map (\<lambda>k. (k, settles k)) (map fst g)"
    using ps(3) by simp
  have rs: "map snd ?tp = map settles (map fst g)"
    by (subst tp) (simp add: comp_def)
  have inv: "invoked ps = fst ` set g"
  proof
    show "invoked ps \<subseteq> fst ` set g"
      using ps(2,4) by (simp add: par_inv_def)
    show "fst ` set g \<subseteq> invoked ps" using unit by blast
  qed
  have none: "reasons_of (map settles (map fst g)) = [] \<longleftrightarrow> (\<forall>n \<in> fst ` set g. settles n = Fulfilled)"
  proof
    assume e: "reasons_of (map settles (map fst g)) = []"
    show "\<forall>n \<in> fst ` set g. settles n = Fulfilled"
    proof
      fix n assume n: "n \<in> fst ` set g"
      show "settles n = Fulfilled"
      proof (cases "settles n")
        case Fulfilled
        then show ?thesis .
      next
        case (Rejected x)
        then have "Rejected x \<in> set (map settles (map fst g))" using n by force
        then have "x \<in> set (reasons_of (map settles (map fst g)))" by (simp only: set_reasons_of)
        then show ?thesis using e by simp
      qed
    qed
  next
    assume a: "\<forall>n \<in> fst ` set g. settles n = Fulfilled"
    have "\<And>x. x \<notin> set (reasons_of (map settles (map fst g)))"
      unfolding set_reasons_of using a by auto
    then show "reasons_of (map settles (map fst g)) = []"
      by (cases "reasons_of (map settles (map fst g))") auto
  qed
  show ?thesis
    unfolding executeParallel_eq [OF sort ps(1)] rs inv none length_reasons_of by (rule refl)
qed


lemma show_nat_digit: "n < 10 \<Longrightarrow> show_nat n = [digit n]"
  by (simp add: show_nat.simps)

lemma show_nat_1: "show_nat (Suc 0) = ''1''"
  by code_simp

lemma show_nat_2: "show_nat (Suc (Suc 0)) = ''2''"
  by code_simp

text \<open>
  The theorem at three independent tasks of which \<open>A\<close> rejects: \<open>B\<close> and \<open>C\<close> are
  invoked and the aggregate holds exactly the cause of \<open>A\<close>.
\<close>

theorem executeParallel_independent_witness:
  "distinct (map fst free_graph) \<and>
   map (\<lambda>(n, td). dependencies td) free_graph = [[], [], []] \<and>
   executeParallel hd a_fails free_graph =
     (Inl (AggregateError [Error ''boom''] ''1 tasks failed''), {''A'', ''B'', ''C''})"
proof -
  have d: "distinct (map fst free_graph)" by (simp add: free_graph_def)
  have f: "\<forall>(n, td) \<in> set free_graph. dependencies td = []" by (simp add: free_graph_def)
  have f': "map (\<lambda>(n, td). dependencies td) free_graph = [[], [], []]"
    by (simp add: free_graph_def)
  have "executeParallel hd a_fails free_graph =
     (Inl (AggregateError [Error ''boom''] ''1 tasks failed''), {''A'', ''B'', ''C''})"
    unfolding executeParallel_independent [OF d f]
    by (simp add: free_graph_def a_fails_def reasons_of_simps isRejected_def show_nat_1)
  with d f' show ?thesis by blast
qed


lemma count_two:
  assumes "(a, r) \<in> set tp" and "(b, r) \<in> set tp" and "a \<noteq> b"
  shows "2 \<le> count_list (map snd tp) r"
proof -
  obtain xs ys where tp: "tp = xs @ (a, r) # ys"
    using assms(1) by (meson split_list)
  have "(b, r) \<in> set xs \<or> (b, r) \<in> set ys" using assms(2,3) tp by auto
  then have "r \<in> set (map snd xs) \<or> r \<in> set (map snd ys)" by force
  then have "count_list (map snd xs) r \<noteq> 0 \<or> count_list (map snd ys) r \<noteq> 0"
    unfolding count_list_0_iff by blast
  then show ?thesis unfolding tp by auto
qed

lemma plan_dep_distinct:
  assumes sort: "topologicalSort g = Inr plan" and td: "get g t = Some td"
    and d: "d \<in> set (dependencies td)"
  shows "d \<noteq> t"
proof -
  have "(t, d) \<in> (dep_rel g)\<^sup>+"
    using td d by (intro r_into_trancl) (simp add: dep_rel_def deps_def)
  then have "position plan d < position plan t" using sort by (intro plan_trancl_position)
  then show ?thesis by auto
qed

lemma dependent_unit_rejected:
  assumes inv: "par_inv fr settles g ps"
    and keys: "fst ` set (taskPromises ps) = fst ` set g"
    and race: "\<forall>es. es \<noteq> [] \<longrightarrow> fr es \<in> set es"
    and edge: "(u, x) \<in> dep_rel g"
    and rej: "map_of (taskPromises ps) x = Some (Rejected e)"
  shows "u \<notin> invoked ps \<and>
     (\<exists>d' e'. (u, d') \<in> dep_rel g \<and> map_of (taskPromises ps) d' = Some (Rejected e') \<and>
        map_of (taskPromises ps) u = Some (Rejected e'))"
proof -
  let ?tp = "taskPromises ps"
  let ?waits = "map (map_of ?tp) (deps g u)"
  have u: "u \<in> fst ` set ?tp" using dep_rel_registered [OF edge] keys by simp
  have x: "x \<in> set (deps g u)" using edge by (simp add: dep_rel_def)
  have unit_u: "map_of ?tp u = Some (unit_result fr settles ?tp (deps g u) u)"
    and inv_u: "u \<in> invoked ps \<longleftrightarrow> promise_all fr ?waits = Fulfilled"
    using par_invD(3,4) [OF inv u] by simp_all
  have "Some (Rejected e) \<in> set ?waits" using x rej by force
  then have nf: "promise_all fr ?waits \<noteq> Fulfilled"
    by (auto simp: promise_all_Fulfilled_iff)
  then obtain e' where e': "promise_all fr ?waits = Rejected e'"
    by (cases "promise_all fr ?waits") auto
  have "Some (Rejected e') \<in> set ?waits" using e' race by (rule promise_all_Rejected)
  then obtain d' where d': "d' \<in> set (deps g u)" "map_of ?tp d' = Some (Rejected e')"
    by auto
  have ut: "map_of ?tp u = Some (Rejected e')"
    using unit_u e' by (simp add: unit_result_def)
  have "(u, d') \<in> dep_rel g" using d'(1) by (simp add: dep_rel_def)
  then have "\<exists>d' e'. (u, d') \<in> dep_rel g \<and> map_of ?tp d' = Some (Rejected e') \<and>
        map_of ?tp u = Some (Rejected e')"
    using d'(2) ut by blast
  moreover have "u \<notin> invoked ps" using nf inv_u by simp
  ultimately show ?thesis by (rule conjI [rotated])
qed

lemma transitive_dependent_rejected:
  assumes inv: "par_inv fr settles g ps"
    and keys: "fst ` set (taskPromises ps) = fst ` set g"
    and race: "\<forall>es. es \<noteq> [] \<longrightarrow> fr es \<in> set es"
    and reach: "(u, d) \<in> (dep_rel g)\<^sup>+"
    and rej: "map_of (taskPromises ps) d = Some (Rejected e)"
  shows "u \<notin> invoked ps \<and>
     (\<exists>d' e'. (u, d') \<in> dep_rel g \<and> map_of (taskPromises ps) d' = Some (Rejected e') \<and>
        map_of (taskPromises ps) u = Some (Rejected e'))"
  using reach
proof (induction rule: converse_trancl_induct)
  case (base y)
  show ?case using inv keys race base rej by (rule dependent_unit_rejected)
next
  case (step y z)
  obtain e' where "map_of (taskPromises ps) z = Some (Rejected e')" using step.IH by blast
  with inv keys race step.hyps(1) show ?case by (rule dependent_unit_rejected)
qed

text \<open>
  Claim C10, as the code has it. Let \<open>t\<close> declare the dependency \<open>d\<close> and let the unit
  of \<open>d\<close> reject with \<open>e\<close>. Then the action of \<open>t\<close> is never invoked and the unit of \<open>t\<close>
  rejects with the reason \<open>e'\<close> of one of its rejected dependencies; the call rejects
  with the aggregate of the reasons of all rejected units, which holds \<open>e\<close>, and holds
  \<open>e'\<close> at least twice: once for that dependency and once for \<open>t\<close>. When \<open>e\<close> is the only
  reason among the rejected dependencies of \<open>t\<close>, the unit of \<open>t\<close> rejects with \<open>e\<close> itself
  and the aggregate holds \<open>e\<close> at least twice: once for \<open>d\<close> and once for \<open>t\<close>. And every
  task \<open>u\<close> that depends on \<open>d\<close>, directly or through other tasks, is never invoked, and
  its unit rejects with the reason of one of its own rejected dependencies.
\<close>

theorem dependent_rejects_with_dependency:
  assumes sort: "topologicalSort g = Inr plan"
    and race: "\<forall>es. es \<noteq> [] \<longrightarrow> first_rejected es \<in> set es"
    and td: "get g t = Some td"
    and d: "d \<in> set (dependencies td)"
  shows "\<exists>ps errs.
     executeParallel_loop first_rejected settles g plan \<lparr>taskPromises = [], invoked = {}\<rparr> = Inr ps \<and>
     errs = reasons_of (map snd (taskPromises ps)) \<and>
     (\<forall>e. map_of (taskPromises ps) d = Some (Rejected e) \<longrightarrow>
        t \<notin> invoked ps \<and>
        (\<exists>d' e'. d' \<in> set (dependencies td) \<and>
           map_of (taskPromises ps) d' = Some (Rejected e') \<and>
           map_of (taskPromises ps) t = Some (Rejected e') \<and> 2 \<le> count_list errs e') \<and>
        executeParallel first_rejected settles g =
          (Inl (AggregateError errs (show_nat (length errs) @ '' tasks failed'')), invoked ps) \<and>
        e \<in> set errs \<and>
        ((\<forall>d' e'. d' \<in> set (dependencies td) \<and> map_of (taskPromises ps) d' = Some (Rejected e')
            \<longrightarrow> e' = e) \<longrightarrow>
         map_of (taskPromises ps) t = Some (Rejected e) \<and> 2 \<le> count_list errs e) \<and>
        (\<forall>u. (u, d) \<in> (dep_rel g)\<^sup>+ \<longrightarrow>
           u \<notin> invoked ps \<and>
           (\<exists>d' e'. (u, d') \<in> dep_rel g \<and> map_of (taskPromises ps) d' = Some (Rejected e') \<and>
              map_of (taskPromises ps) u = Some (Rejected e'))))"
proof -
  obtain ps where ps:
    "executeParallel_loop first_rejected settles g plan \<lparr>taskPromises = [], invoked = {}\<rparr> = Inr ps"
    "par_inv first_rejected settles g ps" "map fst (taskPromises ps) = plan"
    "fst ` set (taskPromises ps) = fst ` set g"
    using units_of_plan [OF sort] by blast
  let ?tp = "taskPromises ps"
  let ?errs = "reasons_of (map snd ?tp)"
  let ?waits = "map (map_of ?tp) (dependencies td)"
  have t: "t \<in> fst ` set ?tp" using get_Some_key [OF td] ps(4) by simp
  have dt: "deps g t = dependencies td" using td by (rule deps_Some)
  have unit_t: "map_of ?tp t = Some (unit_result first_rejected settles ?tp (dependencies td) t)"
    and inv_t: "t \<in> invoked ps \<longleftrightarrow> promise_all first_rejected ?waits = Fulfilled"
    using par_invD(3,4) [OF ps(2) t] dt by simp_all
  have main: "t \<notin> invoked ps \<and>
        (\<exists>d' e'. d' \<in> set (dependencies td) \<and> map_of ?tp d' = Some (Rejected e') \<and>
           map_of ?tp t = Some (Rejected e') \<and> 2 \<le> count_list ?errs e') \<and>
        executeParallel first_rejected settles g =
          (Inl (AggregateError ?errs (show_nat (length ?errs) @ '' tasks failed'')), invoked ps) \<and>
        e \<in> set ?errs \<and>
        ((\<forall>d' e'. d' \<in> set (dependencies td) \<and> map_of ?tp d' = Some (Rejected e') \<longrightarrow> e' = e) \<longrightarrow>
         map_of ?tp t = Some (Rejected e) \<and> 2 \<le> count_list ?errs e) \<and>
        (\<forall>u. (u, d) \<in> (dep_rel g)\<^sup>+ \<longrightarrow>
           u \<notin> invoked ps \<and>
           (\<exists>d' e'. (u, d') \<in> dep_rel g \<and> map_of ?tp d' = Some (Rejected e') \<and>
              map_of ?tp u = Some (Rejected e')))"
    if rej: "map_of ?tp d = Some (Rejected e)" for e
  proof -
    have "Some (Rejected e) \<in> set ?waits" using d rej by force
    then have nf: "promise_all first_rejected ?waits \<noteq> Fulfilled"
      by (auto simp: promise_all_Fulfilled_iff)
    then obtain e' where e': "promise_all first_rejected ?waits = Rejected e'"
      by (cases "promise_all first_rejected ?waits") auto
    have "Some (Rejected e') \<in> set ?waits" using e' race by (rule promise_all_Rejected)
    then obtain d' where d': "d' \<in> set (dependencies td)" "map_of ?tp d' = Some (Rejected e')"
      by auto
    have ut: "map_of ?tp t = Some (Rejected e')"
      using unit_t e' by (simp add: unit_result_def)
    have twice: "2 \<le> count_list ?errs e'"
    proof -
      have m1: "(d', Rejected e') \<in> set ?tp" using d'(2) by (rule map_of_SomeD)
      have m2: "(t, Rejected e') \<in> set ?tp" using ut by (rule map_of_SomeD)
      have "d' \<noteq> t" using sort td d'(1) by (rule plan_dep_distinct)
      then have "2 \<le> count_list (map snd ?tp) (Rejected e')"
        using m1 m2 by (intro count_two)
      then show ?thesis by (simp add: count_reasons_of)
    qed
    have mem_d: "(d, Rejected e) \<in> set ?tp" using rej by (rule map_of_SomeD)
    then have "Rejected e \<in> set (map snd ?tp)" by force
    then have e_in: "e \<in> set ?errs" by (simp only: set_reasons_of)
    then have ne: "?errs \<noteq> []" by auto
    have res: "executeParallel first_rejected settles g =
          (Inl (AggregateError ?errs (show_nat (length ?errs) @ '' tasks failed'')), invoked ps)"
      using ne by (simp add: executeParallel_eq [OF sort ps(1)])
    have same: "map_of ?tp t = Some (Rejected e) \<and> 2 \<le> count_list ?errs e"
      if all: "\<forall>d' e'. d' \<in> set (dependencies td) \<and> map_of ?tp d' = Some (Rejected e') \<longrightarrow> e' = e"
    proof -
      have "e' = e" using all d' by blast
      then have ut': "map_of ?tp t = Some (Rejected e)" using ut by simp
      then have mem_t: "(t, Rejected e) \<in> set ?tp" by (rule map_of_SomeD)
      have "d \<noteq> t" using sort td d by (rule plan_dep_distinct)
      then have "2 \<le> count_list (map snd ?tp) (Rejected e)"
        using mem_d mem_t by (intro count_two)
      then show ?thesis using ut' by (simp add: count_reasons_of)
    qed
    have part: "\<exists>d' e'. d' \<in> set (dependencies td) \<and> map_of ?tp d' = Some (Rejected e') \<and>
           map_of ?tp t = Some (Rejected e') \<and> 2 \<le> count_list ?errs e'"
      using d' ut twice by blast
    have ninv: "t \<notin> invoked ps" using nf inv_t by simp
    have same': "(\<forall>d' e'. d' \<in> set (dependencies td) \<and> map_of ?tp d' = Some (Rejected e') \<longrightarrow> e' = e) \<longrightarrow>
         map_of ?tp t = Some (Rejected e) \<and> 2 \<le> count_list ?errs e"
      using same by (rule impI)
    have down: "\<forall>u. (u, d) \<in> (dep_rel g)\<^sup>+ \<longrightarrow>
           u \<notin> invoked ps \<and>
           (\<exists>d' e'. (u, d') \<in> dep_rel g \<and> map_of ?tp d' = Some (Rejected e') \<and>
              map_of ?tp u = Some (Rejected e'))"
      using transitive_dependent_rejected [OF ps(2,4) race _ rej] by blast
    show ?thesis
      by (intro conjI) (rule ninv part res e_in same' down)+
  qed
  show ?thesis using ps(1) main by blast
qed

text \<open>
  Claim C3, as the code has it. In \<open>executeParallel\<close> the action of a task is invoked
  exactly when the units of all its declared dependencies fulfil; it then settles as
  the action does. When the unit of a dependency rejects, the wait of the dependent
  rejects too: the action is not invoked and the unit of the dependent is rejected.
\<close>

theorem dependent_invoked_iff_dependencies_fulfil:
  assumes sort: "topologicalSort g = Inr plan"
    and td: "get g t = Some td"
  shows "\<exists>ps.
     executeParallel_loop first_rejected settles g plan \<lparr>taskPromises = [], invoked = {}\<rparr> = Inr ps \<and>
     snd (executeParallel first_rejected settles g) = invoked ps \<and>
     (t \<in> invoked ps \<longleftrightarrow>
        (\<forall>d \<in> set (dependencies td). map_of (taskPromises ps) d = Some Fulfilled)) \<and>
     (t \<in> invoked ps \<longrightarrow> map_of (taskPromises ps) t = Some (settles t)) \<and>
     (t \<notin> invoked ps \<longrightarrow> (\<exists>e. map_of (taskPromises ps) t = Some (Rejected e)))"
proof -
  obtain ps where ps:
    "executeParallel_loop first_rejected settles g plan \<lparr>taskPromises = [], invoked = {}\<rparr> = Inr ps"
    "par_inv first_rejected settles g ps" "map fst (taskPromises ps) = plan"
    "fst ` set (taskPromises ps) = fst ` set g"
    using units_of_plan [OF sort] by blast
  let ?tp = "taskPromises ps"
  let ?waits = "map (map_of ?tp) (dependencies td)"
  have t: "t \<in> fst ` set ?tp" using get_Some_key [OF td] ps(4) by simp
  have dt: "deps g t = dependencies td" using td by (rule deps_Some)
  have unit_t: "map_of ?tp t = Some (unit_result first_rejected settles ?tp (dependencies td) t)"
    and inv_t: "t \<in> invoked ps \<longleftrightarrow> promise_all first_rejected ?waits = Fulfilled"
    and sub: "set (dependencies td) \<subseteq> fst ` set ?tp"
    using par_invD(2,3,4) [OF ps(2) t] dt by simp_all
  have iff: "promise_all first_rejected ?waits = Fulfilled \<longleftrightarrow>
      (\<forall>d \<in> set (dependencies td). map_of ?tp d = Some Fulfilled)"
  proof
    assume f: "promise_all first_rejected ?waits = Fulfilled"
    show "\<forall>d \<in> set (dependencies td). map_of ?tp d = Some Fulfilled"
    proof
      fix d assume d: "d \<in> set (dependencies td)"
      then obtain r where r: "map_of ?tp d = Some r"
        using sub lookup_in_keys [of d ?tp] by blast
      have "\<And>e. Some (Rejected e) \<notin> set ?waits"
        using f by (simp add: promise_all_Fulfilled_iff)
      moreover have "Some r \<in> set ?waits" using d r by force
      ultimately show "map_of ?tp d = Some Fulfilled" using r by (cases r) auto
    qed
  next
    assume a: "\<forall>d \<in> set (dependencies td). map_of ?tp d = Some Fulfilled"
    then have "\<And>e. Some (Rejected e) \<notin> set ?waits" by auto
    then show "promise_all first_rejected ?waits = Fulfilled"
      by (simp add: promise_all_Fulfilled_iff)
  qed
  have c1: "snd (executeParallel first_rejected settles g) = invoked ps"
    by (simp add: executeParallel_eq [OF sort ps(1)])
  have c2: "t \<in> invoked ps \<longleftrightarrow>
        (\<forall>d \<in> set (dependencies td). map_of ?tp d = Some Fulfilled)"
    using inv_t iff by simp
  have c3: "t \<in> invoked ps \<longrightarrow> map_of ?tp t = Some (settles t)"
    using inv_t unit_t by (simp add: unit_result_def)
  have c4: "t \<notin> invoked ps \<longrightarrow> (\<exists>e. map_of ?tp t = Some (Rejected e))"
  proof
    assume "t \<notin> invoked ps"
    then obtain e where "promise_all first_rejected ?waits = Rejected e"
      using inv_t by (cases "promise_all first_rejected ?waits") auto
    then show "\<exists>e. map_of ?tp t = Some (Rejected e)"
      using unit_t by (simp add: unit_result_def)
  qed
  show ?thesis using ps(1) c1 c2 c3 c4 by blast
qed


lemma par_graph_sort: "topologicalSort par_graph = Inr [''A'', ''B'']"
  by (simp add: topologicalSort_def par_graph_def visit.simps get_def set_add_def set_delete_def)

lemma par_graph_run:
  "executeParallel_loop hd a_fails par_graph [''A'', ''B''] \<lparr>taskPromises = [], invoked = {}\<rparr> =
     Inr \<lparr>taskPromises = [(''A'', Rejected (Error ''boom'')), (''B'', Rejected (Error ''boom''))],
          invoked = {''A''}\<rparr>"
  by (simp add: par_graph_def get_def executeTask_def promise_all_def a_fails_def)

lemma par_graph_result:
  "executeParallel hd a_fails par_graph =
     (Inl (AggregateError [Error ''boom'', Error ''boom''] ''2 tasks failed''), {''A''})"
proof -
  have "executeParallel hd a_fails par_graph =
     (let settled = map snd [(''A'', Rejected (Error ''boom'')), (''B'', Rejected (Error ''boom''))];
          rejected = filter isRejected settled
      in if length rejected \<noteq> 0
         then (Inl (AggregateError [e. Rejected e \<leftarrow> rejected]
                      (show_nat (length rejected) @ '' tasks failed'')), {''A''})
         else (Inr (), {''A''}))"
    by (simp only: executeParallel_def par_graph_sort sum.case par_graph_run
        par_state.simps)
  then show ?thesis by (simp add: isRejected_def show_nat_2)
qed

lemma par_graph_B:
  "get par_graph ''B'' = Some \<lparr>name = ''B'', dependencies = [''A''], task = ()\<rparr>"
  by (simp add: par_graph_def get_def)

lemma hd_race: "\<forall>es. es \<noteq> [] \<longrightarrow> hd es \<in> set es"
  by simp

text \<open>
  The theorem at \<open>B\<close> depending on \<open>A\<close>, where the action of \<open>A\<close> rejects: the aggregate
  holds the cause of \<open>A\<close> twice.
\<close>

theorem dependent_rejects_with_dependency_witness:
  "topologicalSort par_graph = Inr [''A'', ''B''] \<and>
   \<not> (\<exists>es :: error list. es \<noteq> [] \<and> hd es \<notin> set es) \<and>
   map_option dependencies (get par_graph ''B'') = Some [''A''] \<and>
   executeParallel_loop hd a_fails par_graph [''A'', ''B''] \<lparr>taskPromises = [], invoked = {}\<rparr> =
     Inr \<lparr>taskPromises = [(''A'', Rejected (Error ''boom'')), (''B'', Rejected (Error ''boom''))],
          invoked = {''A''}\<rparr> \<and>
   ''B'' \<notin> {''A''} \<and>
   executeParallel hd a_fails par_graph =
     (Inl (AggregateError [Error ''boom'', Error ''boom''] ''2 tasks failed''), {''A''}) \<and>
   2 \<le> count_list [Error ''boom'', Error ''boom''] (Error ''boom'') \<and>
   (''B'', ''A'') \<in> (dep_rel par_graph)\<^sup>+ \<and>
   (\<exists>e'. map_of [(''A'', Rejected (Error ''boom'')), (''B'', Rejected (Error ''boom''))] ''B'' =
      Some (Rejected e'))"
proof -
  let ?ps = "\<lparr>taskPromises = [(''A'', Rejected (Error ''boom'')), (''B'', Rejected (Error ''boom''))],
          invoked = {''A''}\<rparr>"
  have d: "''A'' \<in> set (dependencies \<lparr>name = ''B'', dependencies = [''A''], task = ()\<rparr>)"
    by simp
  obtain ps errs where h:
    "executeParallel_loop hd a_fails par_graph [''A'', ''B''] \<lparr>taskPromises = [], invoked = {}\<rparr> = Inr ps"
    "errs = reasons_of (map snd (taskPromises ps))"
    "\<forall>e. map_of (taskPromises ps) ''A'' = Some (Rejected e) \<longrightarrow>
        ''B'' \<notin> invoked ps \<and>
        (\<exists>d' e'. d' \<in> set (dependencies \<lparr>name = ''B'', dependencies = [''A''], task = ()\<rparr>) \<and>
           map_of (taskPromises ps) d' = Some (Rejected e') \<and>
           map_of (taskPromises ps) ''B'' = Some (Rejected e') \<and> 2 \<le> count_list errs e') \<and>
        executeParallel hd a_fails par_graph =
          (Inl (AggregateError errs (show_nat (length errs) @ '' tasks failed'')), invoked ps) \<and>
        e \<in> set errs \<and>
        ((\<forall>d' e'. d' \<in> set (dependencies \<lparr>name = ''B'', dependencies = [''A''], task = ()\<rparr>) \<and>
            map_of (taskPromises ps) d' = Some (Rejected e') \<longrightarrow> e' = e) \<longrightarrow>
         map_of (taskPromises ps) ''B'' = Some (Rejected e) \<and> 2 \<le> count_list errs e) \<and>
        (\<forall>u. (u, ''A'') \<in> (dep_rel par_graph)\<^sup>+ \<longrightarrow>
           u \<notin> invoked ps \<and>
           (\<exists>d' e'. (u, d') \<in> dep_rel par_graph \<and>
              map_of (taskPromises ps) d' = Some (Rejected e') \<and>
              map_of (taskPromises ps) u = Some (Rejected e')))"
    using dependent_rejects_with_dependency [OF par_graph_sort hd_race par_graph_B d, of a_fails]
    by blast
  have ps: "ps = ?ps" using h(1) par_graph_run by simp
  have errs: "errs = [Error ''boom'', Error ''boom'']"
    using h(2) by (simp add: ps reasons_of_simps)
  have rej: "map_of (taskPromises ps) ''A'' = Some (Rejected (Error ''boom''))"
    by (simp add: ps)
  note c = h(3) [rule_format, OF rej]
  have c1: "''B'' \<notin> {''A''}" using c [THEN conjunct1] by (simp add: ps)
  have c2: "executeParallel hd a_fails par_graph =
     (Inl (AggregateError [Error ''boom'', Error ''boom''] ''2 tasks failed''), {''A''})"
    using c [THEN conjunct2, THEN conjunct2, THEN conjunct1]
    by (simp add: ps errs show_nat_2)
  have only: "\<forall>d' e'. d' \<in> set (dependencies \<lparr>name = ''B'', dependencies = [''A''], task = ()\<rparr>) \<and>
            map_of (taskPromises ps) d' = Some (Rejected e') \<longrightarrow> e' = Error ''boom''"
    by (simp add: ps)
  have c3: "2 \<le> count_list [Error ''boom'', Error ''boom''] (Error ''boom'')"
    using c [THEN conjunct2, THEN conjunct2, THEN conjunct2, THEN conjunct2, THEN conjunct1,
        THEN mp, OF only, THEN conjunct2]
    by (simp only: errs)
  have reach: "(''B'', ''A'') \<in> (dep_rel par_graph)\<^sup>+"
    by (rule r_into_trancl) (simp add: dep_rel_def deps_def par_graph_B)
  have c4: "\<exists>e'. map_of [(''A'', Rejected (Error ''boom'')), (''B'', Rejected (Error ''boom''))] ''B'' =
      Some (Rejected e')"
    using c [THEN conjunct2, THEN conjunct2, THEN conjunct2, THEN conjunct2, THEN conjunct2,
        THEN spec, THEN mp, OF reach, THEN conjunct2]
    unfolding ps par_state.simps by blast
  have h0: "\<not> (\<exists>es :: error list. es \<noteq> [] \<and> hd es \<notin> set es)"
    using hd_race [where ?'a = error] by blast
  have h1: "map_option dependencies (get par_graph ''B'') = Some [''A'']"
    by (simp add: par_graph_B)
  show ?thesis
    by (intro conjI) (rule par_graph_sort h0 h1 par_graph_run c1 c2 c3 reach c4)+
qed

lemma fan_graph_sort: "topologicalSort fan_graph = Inr [''A'', ''B'', ''C'']"
  by (simp add: topologicalSort_def fan_graph_def visit.simps get_def set_add_def set_delete_def)

lemma fan_graph_run:
  "executeParallel_loop last ab_fail fan_graph [''A'', ''B'', ''C'']
       \<lparr>taskPromises = [], invoked = {}\<rparr> =
     Inr \<lparr>taskPromises = [(''A'', Rejected (Error ''a'')), (''B'', Rejected (Error ''b'')),
                           (''C'', Rejected (Error ''b''))],
          invoked = {''A'', ''B''}\<rparr>"
  by (simp add: fan_graph_def get_def executeTask_def promise_all_def ab_fail_def insert_commute)

lemma show_nat_3: "show_nat (Suc (Suc (Suc 0))) = ''3''"
  by code_simp

lemma fan_graph_result:
  "executeParallel last ab_fail fan_graph =
     (Inl (AggregateError [Error ''a'', Error ''b'', Error ''b''] ''3 tasks failed''),
      {''A'', ''B''})"
proof -
  have "executeParallel last ab_fail fan_graph =
     (let settled = map snd [(''A'', Rejected (Error ''a'')), (''B'', Rejected (Error ''b'')),
                             (''C'', Rejected (Error ''b''))];
          rejected = filter isRejected settled
      in if length rejected \<noteq> 0
         then (Inl (AggregateError [e. Rejected e \<leftarrow> rejected]
                      (show_nat (length rejected) @ '' tasks failed'')), {''A'', ''B''})
         else (Inr (), {''A'', ''B''}))"
    by (simp only: executeParallel_def fan_graph_sort sum.case fan_graph_run
        par_state.simps)
  then show ?thesis by (simp add: isRejected_def show_nat_3)
qed

text \<open>
  Claim C10 as it is worded fails when two dependencies of a task reject with different
  errors. \<open>C\<close> depends on \<open>A\<close> and \<open>B\<close>, the action of \<open>A\<close> rejects with \<open>a\<close> and that of
  \<open>B\<close> with \<open>b\<close>, and \<open>B\<close> rejects first: the unit of the dependency \<open>A\<close> rejects with
  \<open>a\<close>, yet the unit of \<open>C\<close> rejects with \<open>b\<close>, and the aggregate holds \<open>a\<close> once only.
\<close>

theorem dependent_other_reason_counterexample:
  "map_option dependencies (get fan_graph ''C'') = Some [''A'', ''B''] \<and>
   executeParallel_loop last ab_fail fan_graph [''A'', ''B'', ''C'']
       \<lparr>taskPromises = [], invoked = {}\<rparr> =
     Inr \<lparr>taskPromises = [(''A'', Rejected (Error ''a'')), (''B'', Rejected (Error ''b'')),
                           (''C'', Rejected (Error ''b''))],
          invoked = {''A'', ''B''}\<rparr> \<and>
   Error ''b'' \<noteq> Error ''a'' \<and>
   executeParallel last ab_fail fan_graph =
     (Inl (AggregateError [Error ''a'', Error ''b'', Error ''b''] ''3 tasks failed''),
      {''A'', ''B''}) \<and>
   count_list [Error ''a'', Error ''b'', Error ''b''] (Error ''a'') = 1"
proof -
  have c1: "map_option dependencies (get fan_graph ''C'') = Some [''A'', ''B'']"
    by (simp add: fan_graph_def get_def)
  have c3: "Error ''b'' \<noteq> Error ''a''" by simp
  have c5: "count_list [Error ''a'', Error ''b'', Error ''b''] (Error ''a'') = 1" by simp
  show ?thesis
    by (intro conjI) (rule c1 fan_graph_run c3 fan_graph_result c5)+
qed

text \<open>
  The theorem at \<open>B\<close> depending on \<open>A\<close>, where the action of \<open>A\<close> rejects.
\<close>

theorem dependent_invoked_iff_dependencies_fulfil_witness:
  "topologicalSort par_graph = Inr [''A'', ''B''] \<and>
   map_option dependencies (get par_graph ''B'') = Some [''A''] \<and>
   executeParallel_loop hd a_fails par_graph [''A'', ''B''] \<lparr>taskPromises = [], invoked = {}\<rparr> =
     Inr \<lparr>taskPromises = [(''A'', Rejected (Error ''boom'')), (''B'', Rejected (Error ''boom''))],
          invoked = {''A''}\<rparr> \<and>
   snd (executeParallel hd a_fails par_graph) = {''A''} \<and>
   map_of [(''A'', Rejected (Error ''boom'')), (''B'', Rejected (Error ''boom''))] ''A'' \<noteq> Some Fulfilled \<and>
   ''B'' \<notin> {''A''}"
proof -
  let ?ps = "\<lparr>taskPromises = [(''A'', Rejected (Error ''boom'')), (''B'', Rejected (Error ''boom''))],
          invoked = {''A''}\<rparr>"
  let ?td = "\<lparr>name = ''B'', dependencies = [''A''], task = ()\<rparr>"
  obtain ps where h:
    "executeParallel_loop hd a_fails par_graph [''A'', ''B''] \<lparr>taskPromises = [], invoked = {}\<rparr> = Inr ps"
    "snd (executeParallel hd a_fails par_graph) = invoked ps"
    "''B'' \<in> invoked ps \<longleftrightarrow> (\<forall>d \<in> set (dependencies ?td). map_of (taskPromises ps) d = Some Fulfilled)"
    using dependent_invoked_iff_dependencies_fulfil [OF par_graph_sort par_graph_B, of hd a_fails]
    by blast
  have ps: "ps = ?ps" using h(1) par_graph_run by simp
  have c1: "snd (executeParallel hd a_fails par_graph) = {''A''}"
    using h(2) by (simp add: ps)
  have c2: "map_of [(''A'', Rejected (Error ''boom'')), (''B'', Rejected (Error ''boom''))] ''A''
      \<noteq> Some Fulfilled"
    by simp
  have "''B'' \<notin> invoked ps" using h(3) by (simp add: ps)
  then have c3: "''B'' \<notin> {''A''}" by (simp add: ps)
  have h1: "map_option dependencies (get par_graph ''B'') = Some [''A'']"
    by (simp add: par_graph_B)
  show ?thesis
    by (intro conjI) (rule par_graph_sort h1 par_graph_run c1 c2 c3)+
qed

text \<open>
  Claim C3 as it is worded fails there: the unit of the dependency \<open>A\<close> of \<open>B\<close> fails, and
  the action of \<open>B\<close> is not invoked.
\<close>

theorem dependent_still_runs_counterexample:
  "map_option dependencies (get par_graph ''B'') = Some [''A''] \<and>
   a_fails ''A'' = Rejected (Error ''boom'') \<and>
   executeParallel hd a_fails par_graph =
     (Inl (AggregateError [Error ''boom'', Error ''boom''] ''2 tasks failed''), {''A''}) \<and>
   ''B'' \<notin> snd (executeParallel hd a_fails par_graph)"
proof -
  have h1: "map_option dependencies (get par_graph ''B'') = Some [''A'']"
    by (simp add: par_graph_B)
  have h2: "a_fails ''A'' = Rejected (Error ''boom'')" by (simp add: a_fails_def)
  have h3: "''B'' \<notin> snd (executeParallel hd a_fails par_graph)"
    by (simp add: par_graph_result)
  show ?thesis
    by (intro conjI) (rule h1 h2 par_graph_result h3)+
qed


section \<open>The failures of the sort\<close>

lemma visit_failure_induct_aux:
  fixes g :: "'a TaskGraph"
  assumes cyc: "\<And>n st. \<lbrakk>n \<notin> visited st; n \<in> set (visiting st)\<rbrakk>
        \<Longrightarrow> P n st (CyclicDependencyError (visiting st @ [n]))"
    and missing: "\<And>n st. \<lbrakk>n \<notin> visited st; n \<notin> set (visiting st); get g n = None\<rbrakk>
        \<Longrightarrow> P n st (Error (''Task not found: '' @ n))"
    and node: "\<And>n st td e. \<lbrakk>n \<notin> visited st; n \<notin> set (visiting st); get g n = Some td;
        forEach_visit g (dependencies td) (enter n st) = Inl e;
        Q (dependencies td) (enter n st) e\<rbrakk> \<Longrightarrow> P n st e"
    and head: "\<And>d ds st e. \<lbrakk>visit g d st = Inl e; P d st e\<rbrakk> \<Longrightarrow> Q (d # ds) st e"
    and tail: "\<And>d ds st st1 e. \<lbrakk>visit g d st = Inr st1; forEach_visit g ds st1 = Inl e;
        Q ds st1 e\<rbrakk> \<Longrightarrow> Q (d # ds) st e"
  shows "g' = g \<longrightarrow> (\<forall>e. visit g' n st = Inl e \<longrightarrow> P n st e)"
    and "g' = g \<longrightarrow> (\<forall>e. forEach_visit g' ds st = Inl e \<longrightarrow> Q ds st e)"
proof (induct g' n st and g' ds st rule: visit_forEach_visit.induct)
  case (1 g' n st)
  show ?case
  proof (intro allI impI)
    fix e
    assume eq: "g' = g" and r: "visit g' n st = Inl e"
    from visit_Inl_cases [OF r] have nv: "n \<notin> visited st"
      and c: "(n \<in> set (visiting st) \<and> e = CyclicDependencyError (visiting st @ [n])) \<or>
          (n \<notin> set (visiting st) \<and> get g' n = None \<and> e = Error (''Task not found: '' @ n)) \<or>
          (n \<notin> set (visiting st) \<and>
            (\<exists>td. get g' n = Some td \<and> forEach_visit g' (dependencies td) (enter n st) = Inl e))"
      by blast+
    from c show "P n st e"
    proof (elim disjE conjE exE)
      assume "n \<in> set (visiting st)" "e = CyclicDependencyError (visiting st @ [n])"
      then show ?thesis using cyc [OF nv] by simp
    next
      assume "n \<notin> set (visiting st)" "get g' n = None" "e = Error (''Task not found: '' @ n)"
      then show ?thesis using missing [of n st] nv eq by simp
    next
      fix td
      assume h: "n \<notin> set (visiting st)" "get g' n = Some td"
        "forEach_visit g' (dependencies td) (enter n st) = Inl e"
      have "Q (dependencies td) (enter n st) e"
        using 1 [OF nv h(1) refl h(2)] h(3) eq unfolding enter_def by blast
      then show ?thesis using node [of n st td e] nv h eq by simp
    qed
  qed
next
  case (2 g' st)
  show ?case by simp
next
  case (3 g' d ds st)
  show ?case
  proof (intro allI impI)
    fix e
    assume eq: "g' = g" and r: "forEach_visit g' (d # ds) st = Inl e"
    then consider "visit g' d st = Inl e"
      | st1 where "visit g' d st = Inr st1" "forEach_visit g' ds st1 = Inl e"
      unfolding forEach_Cons_Inl by blast
    then show "Q (d # ds) st e"
    proof cases
      case 1
      then have "P d st e" using 3(1) eq by blast
      then show ?thesis using head [of d st e ds] 1 eq by simp
    next
      case 2
      then have "Q ds st1 e" using 3(2) [OF 2(1)] eq by blast
      then show ?thesis using tail [of d st st1 ds e] 2 eq by simp
    qed
  qed
qed

lemma visiting_restored:
  fixes g :: "'a TaskGraph"
  assumes "visit g n st = Inr st'"
  shows "visiting st' = visiting st"
proof (rule visit_success_induct(1) [where g = g and P = "\<lambda>n st st'. visiting st' = visiting st"
      and Q = "\<lambda>ds st st'. visiting st' = visiting st"])
  show "\<And>n st. n \<in> visited st \<Longrightarrow> visiting st = visiting st" by simp
  show "\<And>n st td st2. \<lbrakk>n \<notin> visited st; n \<notin> set (visiting st); get g n = Some td;
        forEach_visit g (dependencies td) (enter n st) = Inr st2;
        visiting st2 = visiting (enter n st)\<rbrakk> \<Longrightarrow> visiting (finish n st2) = visiting st"
    by (simp add: enter_simps finish_simps set_delete_snoc)
  show "\<And>st. visiting st = visiting st" by simp
  show "\<And>d ds st st1 st'. \<lbrakk>visit g d st = Inr st1; visiting st1 = visiting st;
        forEach_visit g ds st1 = Inr st'; visiting st' = visiting st1\<rbrakk>
        \<Longrightarrow> visiting st' = visiting st" by simp
  show "visit g n st = Inr st'" by (rule assms)
qed

lemma path_ok_head: "path_ok g vs (d # ds) \<Longrightarrow> path_ok g vs [d]"
  by (simp add: path_ok_def)

lemma path_ok_tail: "path_ok g vs (d # ds) \<Longrightarrow> path_ok g vs ds"
  by (simp add: path_ok_def)

lemma path_ok_enter:
  assumes "path_ok g vs [n]" and "n \<notin> set vs" and "get g n = Some td"
  shows "path_ok g (vs @ [n]) (dependencies td)"
proof -
  have "successively (\<lambda>x y. (x, y) \<in> dep_rel g) (vs @ [n])"
    using assms(1) by (auto simp: path_ok_def successively_append_iff)
  moreover have "distinct (vs @ [n])" using assms(1,2) by (simp add: path_ok_def)
  moreover have "\<forall>d \<in> set (dependencies td). (n, d) \<in> dep_rel g"
    by (simp add: dep_rel_def deps_Some [OF assms(3)])
  ultimately show ?thesis by (simp add: path_ok_def)
qed

lemma fp_cyc:
  assumes "n \<notin> visited st" and "n \<in> set (visiting st)"
  shows "fail_post g [n] st (CyclicDependencyError (visiting st @ [n]))"
  unfolding fail_post_def
proof
  assume ok: "path_ok g (visiting st) [n]"
  let ?R = "\<lambda>x y. (x, y) \<in> dep_rel g"
  obtain lead mid where vs: "visiting st = lead @ n # mid"
    using assms(2) by (meson split_list)
  have ne: "visiting st \<noteq> []" using vs by simp
  have suc: "successively ?R (visiting st)" and dist: "distinct (visiting st)"
    and edge: "(last (visiting st), n) \<in> dep_rel g"
    using ok ne by (simp_all add: path_ok_def)
  have s1: "successively ?R (n # mid)" using suc unfolding vs successively_append_iff by simp
  have l: "last (n # mid) = last (visiting st)" unfolding vs by simp
  have "successively ?R ((n # mid) @ [n])"
    unfolding successively_append_iff using s1 edge l by simp
  moreover have "distinct (butlast ((n # mid) @ [n]))"
    using dist unfolding vs by (simp add: butlast_append)
  ultimately have "cycle_path g ((n # mid) @ [n])"
    by (simp add: cycle_path_def)
  moreover have "visiting st @ [n] = lead @ ((n # mid) @ [n])" by (simp add: vs)
  ultimately show "failure_ok g (CyclicDependencyError (visiting st @ [n]))"
    unfolding failure_ok_def by blast
qed

lemma fp_missing:
  assumes "n \<notin> visited st" and "n \<notin> set (visiting st)" and "get g n = None"
  shows "fail_post g [n] st (Error (''Task not found: '' @ n))"
  unfolding fail_post_def
proof
  assume ok: "path_ok g (visiting st) [n]"
  have "visiting st \<noteq> []" using ok assms(3) by (auto simp: path_ok_def)
  then have "(last (visiting st), n) \<in> dep_rel g" using ok by (simp add: path_ok_def)
  then show "failure_ok g (Error (''Task not found: '' @ n))"
    using assms(3) unfolding failure_ok_def by blast
qed

lemma fp_node:
  assumes "n \<notin> visited st" and "n \<notin> set (visiting st)" and "get g n = Some td"
    and "forEach_visit g (dependencies td) (enter n st) = Inl e"
    and "fail_post g (dependencies td) (enter n st) e"
  shows "fail_post g [n] st e"
  using assms(5) path_ok_enter [OF _ assms(2,3)]
  by (simp add: fail_post_def enter_simps assms(2))

lemma fp_head:
  assumes "visit g d st = Inl e" and "fail_post g [d] st e"
  shows "fail_post g (d # ds) st e"
  using assms(2) path_ok_head [of g "visiting st" d ds] by (auto simp: fail_post_def)

lemma fp_tail:
  assumes "visit g d st = Inr st1" and "forEach_visit g ds st1 = Inl e" and "fail_post g ds st1 e"
  shows "fail_post g (d # ds) st e"
  using assms(3) path_ok_tail [of g "visiting st" d ds] visiting_restored [OF assms(1)]
  by (auto simp: fail_post_def)

lemma fail_post_forEach:
  fixes g :: "'a TaskGraph"
  assumes "forEach_visit g ds st = Inl e"
  shows "fail_post g ds st e"
proof -
  have "g = g \<longrightarrow> (\<forall>e. forEach_visit g ds st = Inl e \<longrightarrow> fail_post g ds st e)"
    by (rule visit_failure_induct_aux(2) [where g = g and P = "\<lambda>n. fail_post g [n]"])
       (rule fp_cyc, assumption+, rule fp_missing, assumption+, rule fp_node, assumption+,
        rule fp_head, assumption+, rule fp_tail, assumption+)
  then show ?thesis using assms by blast
qed

lemma sort_failure:
  assumes "topologicalSort g = Inl e"
  shows "failure_ok g e"
proof -
  have "forEach_visit g (map fst g) init_state = Inl e"
    using assms by (simp add: topologicalSort_Inl)
  then have "fail_post g (map fst g) init_state e" by (rule fail_post_forEach)
  moreover have "path_ok g (visiting init_state) (map fst g)"
    by (auto simp: path_ok_def init_state_def get_def map_of_eq_None_iff)
  ultimately show ?thesis by (simp add: fail_post_def)
qed

lemma successively_trancl:
  "successively (\<lambda>x y. (x, y) \<in> R) (x # xs) \<Longrightarrow> xs \<noteq> [] \<Longrightarrow> (x, last xs) \<in> R\<^sup>+"
proof (induction xs arbitrary: x)
  case Nil
  then show ?case by simp
next
  case (Cons y ys)
  have xy: "(x, y) \<in> R" using Cons.prems(1) by simp
  show ?case
  proof (cases "ys = []")
    case True
    then show ?thesis using xy by simp
  next
    case False
    have "successively (\<lambda>x y. (x, y) \<in> R) (y # ys)" using Cons.prems(1) by simp
    then have "(y, last ys) \<in> R\<^sup>+" using False by (rule Cons.IH)
    then have "(x, last ys) \<in> R\<^sup>+" using xy by (rule trancl_into_trancl2 [rotated])
    then show ?thesis using False by simp
  qed
qed

lemma cycle_path_trancl:
  assumes "cycle_path g cyc"
  shows "(hd cyc, hd cyc) \<in> (dep_rel g)\<^sup>+"
proof -
  have l: "2 \<le> length cyc" using assms by (simp add: cycle_path_def)
  then obtain x xs where c1: "cyc = x # xs" by (cases cyc) auto
  have c2: "xs \<noteq> []" using l c1 by auto
  note c = c1 c2
  have "successively (\<lambda>x y. (x, y) \<in> dep_rel g) cyc"
    using assms unfolding cycle_path_def by blast
  then have "successively (\<lambda>x y. (x, y) \<in> dep_rel g) (x # xs)" unfolding c1 .
  then have "(x, last xs) \<in> (dep_rel g)\<^sup>+" using c2 by (rule successively_trancl)
  moreover have "hd cyc = last cyc" using assms unfolding cycle_path_def by blast
  then have "last xs = x" unfolding c1 using c2 by simp
  ultimately show ?thesis unfolding c1 by simp
qed

lemma sort_Inl_execute:
  assumes "topologicalSort g = Inl e"
  shows "execute g s = (Inl e, s, [])" and "executeParallel fr settles g = (Inl e, {})"
  using assms by (simp_all add: execute_def executeParallel_def)

lemma missing_not_sorted:
  assumes "(t, d) \<in> dep_rel g" and "d \<notin> fst ` set g"
  shows "topologicalSort g \<noteq> Inr plan"
proof
  assume sort: "topologicalSort g = Inr plan"
  have "(t, d) \<in> (dep_rel g)\<^sup>+" using assms(1) by (rule r_into_trancl)
  then have "position plan d < position plan t" using sort by (intro plan_trancl_position)
  moreover have "position plan t \<le> length plan"
    using position_less [of t plan] position_ge [of t plan] by (cases "t \<in> set plan") auto
  ultimately have "d \<in> set plan" using position_ge [of d plan] by (cases "d \<in> set plan") auto
  then show False using plan_facts(2) [OF sort] assms(2) by simp
qed



subsection \<open>The first problem met\<close>

lemma first_problem_unique:
  assumes "first_problem g way n pr" and "first_problem g way n pr'"
  shows "pr' = pr"
  using assms
proof (induction arbitrary: pr' rule: first_problem.induct)
  case (repeated n way)
  from repeated.prems repeated.hyps show ?case
    by (cases rule: first_problem.cases) simp_all
next
  case (missing n way)
  from missing.prems missing.hyps show ?case
    by (cases rule: first_problem.cases) simp_all
next
  case (descend n way td d pr)
  from descend.prems show ?case
  proof (cases rule: first_problem.cases)
    case repeated
    then show ?thesis using descend.hyps(1) by simp
  next
    case missing
    then show ?thesis using descend.hyps(2) by simp
  next
    case (descend td' d')
    have "td' = td" using descend(2) descend.hyps(2) by simp
    then have "d' = d" using descend(3) descend.hyps(3) by simp
    then show ?thesis using descend(4) descend.IH by simp
  qed
qed

lemma troubled_missing: "get g n = None \<Longrightarrow> troubled g n"
  unfolding troubled_def by blast

lemma troubled_cycle: "(n, n) \<in> (dep_rel g)\<^sup>+ \<Longrightarrow> troubled g n"
  unfolding troubled_def by blast

lemma troubled_step:
  assumes "(n, d) \<in> dep_rel g" and "troubled g d"
  shows "troubled g n"
proof -
  obtain x where x: "(d, x) \<in> (dep_rel g)\<^sup>*" "get g x = None \<or> (x, x) \<in> (dep_rel g)\<^sup>+"
    using assms(2) unfolding troubled_def by blast
  have "(n, x) \<in> (dep_rel g)\<^sup>*" using assms(1) x(1) by (rule converse_rtrancl_into_rtrancl)
  then show ?thesis using x(2) unfolding troubled_def by blast
qed

lemma deps_first_closed:
  assumes df: "deps_first g xs" and x: "x \<in> set xs" and r: "(x, y) \<in> (dep_rel g)\<^sup>*"
  shows "y \<in> set xs \<and> position xs y \<le> position xs x"
  using r
proof (induction rule: rtrancl_induct)
  case base
  show ?case using x by simp
next
  case (step y z)
  have y: "y \<in> set xs" using step.IH by simp
  have "z \<in> set (deps g y)" using step.hyps(2) by (simp add: dep_rel_def)
  then have lt: "position xs z < position xs y" using df y by (intro deps_first_position)
  have "position xs y < length xs" using y by (rule position_less)
  then have "z \<in> set xs" using lt position_ge [of z xs] by (cases "z \<in> set xs") auto
  then show ?case using lt step.IH by simp
qed

lemma visited_not_troubled:
  assumes inv: "sort_inv g st" and x: "x \<in> visited st"
  shows "\<not> troubled g x"
proof
  assume "troubled g x"
  then obtain y where y: "(x, y) \<in> (dep_rel g)\<^sup>*" "get g y = None \<or> (y, y) \<in> (dep_rel g)\<^sup>+"
    unfolding troubled_def by blast
  have df: "deps_first g (sorted st)" and s: "set (sorted st) = visited st"
    and reg: "visited st \<subseteq> fst ` set g"
    using inv by (simp_all add: sort_inv_def)
  have xs: "x \<in> set (sorted st)" using x s by simp
  have yin: "y \<in> set (sorted st)" using deps_first_closed [OF df xs y(1)] by simp
  then have "y \<in> fst ` set g" using s reg by blast
  then have some: "get g y \<noteq> None" by (simp add: get_def map_of_eq_None_iff)
  have "(y, y) \<notin> (dep_rel g)\<^sup>+"
  proof
    assume "(y, y) \<in> (dep_rel g)\<^sup>+"
    then obtain z where z: "(y, z) \<in> (dep_rel g)\<^sup>*" "(z, y) \<in> dep_rel g"
      by (meson tranclD2)
    have zz: "z \<in> set (sorted st) \<and> position (sorted st) z \<le> position (sorted st) y"
      using df yin z(1) by (rule deps_first_closed)
    have "y \<in> set (deps g z)" using z(2) by (simp add: dep_rel_def)
    then have "position (sorted st) y < position (sorted st) z"
      using df zz by (intro deps_first_position) simp_all
    then show False using zz by simp
  qed
  then show False using y(2) some by simp
qed

lemma success_not_troubled:
  assumes "visit g d st = Inr st1" and "sort_inv g st"
  shows "\<not> troubled g d \<and> sort_inv g st1 \<and> visiting st1 = visiting st"
proof -
  have "visit_post g [d] st st1" using assms(1) by (rule visit_post_visit)
  then have p: "sort_inv g st1" "visiting st1 = visiting st" "d \<in> visited st1"
    using assms(2) by (simp_all add: visit_post_def)
  show ?thesis using visited_not_troubled [OF p(1,3)] p(1,2) by simp
qed

lemma on_way_cycle:
  assumes ok: "path_ok g vs [n]" and n: "n \<in> set vs"
  shows "(n, n) \<in> (dep_rel g)\<^sup>+"
proof -
  let ?R = "\<lambda>x y. (x, y) \<in> dep_rel g"
  obtain lead mid where vs: "vs = lead @ n # mid" using n by (meson split_list)
  have ne: "vs \<noteq> []" using vs by simp
  have suc: "successively ?R vs" and edge: "(last vs, n) \<in> dep_rel g"
    using ok ne by (simp_all add: path_ok_def)
  have s1: "successively ?R (n # mid)" using suc unfolding vs successively_append_iff by simp
  show ?thesis
  proof (cases "mid = []")
    case True
    then have "last vs = n" unfolding vs by simp
    then show ?thesis using edge by simp
  next
    case False
    have "(n, last mid) \<in> (dep_rel g)\<^sup>+" using s1 False by (rule successively_trancl)
    moreover have "last mid = last vs" unfolding vs using False by simp
    ultimately show ?thesis using edge by (simp add: trancl.intros(2))
  qed
qed

lemma ft_cyc:
  assumes "n \<notin> visited st" and "n \<in> set (visiting st)"
  shows "ft_post g [n] st (CyclicDependencyError (visiting st @ [n]))"
  unfolding ft_post_def using on_way_cycle [OF _ assms(2)] troubled_cycle [of n g] by auto

lemma ft_missing:
  assumes "n \<notin> visited st" and "n \<notin> set (visiting st)" and "get g n = None"
  shows "ft_post g [n] st (Error (''Task not found: '' @ n))"
  unfolding ft_post_def using troubled_missing [OF assms(3)] by simp

lemma ft_node:
  assumes "n \<notin> visited st" and "n \<notin> set (visiting st)" and "get g n = Some td"
    and "forEach_visit g (dependencies td) (enter n st) = Inl e"
    and "ft_post g (dependencies td) (enter n st) e"
  shows "ft_post g [n] st e"
  unfolding ft_post_def
proof
  assume ok: "path_ok g (visiting st) [n]"
  have "path_ok g (visiting st @ [n]) (dependencies td)"
    using ok assms(2,3) by (rule path_ok_enter)
  then obtain d where d: "d \<in> set (dependencies td)" "troubled g d"
    using assms(5) by (auto simp: ft_post_def enter_simps assms(2))
  have "(n, d) \<in> dep_rel g" using d(1) by (simp add: dep_rel_def deps_Some [OF assms(3)])
  then have "troubled g n" using d(2) by (rule troubled_step)
  then show "\<exists>n \<in> set [n]. troubled g n" by simp
qed

lemma ft_head:
  assumes "visit g d st = Inl e" and "ft_post g [d] st e"
  shows "ft_post g (d # ds) st e"
  using assms(2) path_ok_head [of g "visiting st" d ds] by (auto simp: ft_post_def)

lemma ft_tail:
  assumes "visit g d st = Inr st1" and "forEach_visit g ds st1 = Inl e" and "ft_post g ds st1 e"
  shows "ft_post g (d # ds) st e"
  using assms(3) path_ok_tail [of g "visiting st" d ds] visiting_restored [OF assms(1)]
  by (auto simp: ft_post_def)

lemma failure_troubled:
  fixes g :: "'a TaskGraph"
  assumes "visit g n st = Inl e" and "path_ok g (visiting st) [n]"
  shows "troubled g n"
proof -
  have "g = g \<longrightarrow> (\<forall>e. visit g n st = Inl e \<longrightarrow> ft_post g [n] st e)"
    by (rule visit_failure_induct_aux(1) [where g = g and P = "\<lambda>n. ft_post g [n]"
          and Q = "ft_post g"])
       (rule ft_cyc, assumption+, rule ft_missing, assumption+, rule ft_node, assumption+,
        rule ft_head, assumption+, rule ft_tail, assumption+)
  then have "ft_post g [n] st e" using assms(1) by blast
  then show ?thesis using assms(2) by (simp add: ft_post_def)
qed

lemma bp_cyc:
  assumes "n \<notin> visited st" and "n \<in> set (visiting st)"
  shows "blame_post g n st (CyclicDependencyError (visiting st @ [n]))"
proof -
  have "first_problem g (visiting st) n (Repeated n)" using assms(2) by (rule first_problem.repeated)
  moreover have "reports (CyclicDependencyError (visiting st @ [n])) (Repeated n)" by simp
  ultimately show ?thesis unfolding blame_post_def by blast
qed

lemma bp_missing:
  assumes "n \<notin> visited st" and "n \<notin> set (visiting st)" and "get g n = None"
  shows "blame_post g n st (Error (''Task not found: '' @ n))"
proof -
  have "first_problem g (visiting st) n (Missing n)" using assms(2,3) by (rule first_problem.missing)
  moreover have "reports (Error (''Task not found: '' @ n)) (Missing n)" by simp
  ultimately show ?thesis unfolding blame_post_def by blast
qed

lemma bp_node:
  assumes "n \<notin> visited st" and "n \<notin> set (visiting st)" and "get g n = Some td"
    and "forEach_visit g (dependencies td) (enter n st) = Inl e"
    and "blame_posts g (dependencies td) (enter n st) e"
  shows "blame_post g n st e"
  unfolding blame_post_def
proof
  assume pre: "sort_inv g st \<and> path_ok g (visiting st) [n]"
  have inv: "sort_inv g (enter n st)" using pre assms(1) by (simp add: sort_inv_enter)
  have v: "visiting (enter n st) = visiting st @ [n]" using assms(2) by (rule enter_simps(3))
  have ok: "path_ok g (visiting (enter n st)) (dependencies td)"
    unfolding v using pre assms(2,3) by (intro path_ok_enter) simp_all
  obtain d pr where d: "find (troubled g) (dependencies td) = Some d"
      "first_problem g (visiting st @ [n]) d pr" "reports e pr"
    using assms(5) inv ok unfolding blame_posts_def v by blast
  have "first_problem g (visiting st) n pr" using assms(2,3) d(1,2) by (rule first_problem.descend)
  then show "\<exists>pr. first_problem g (visiting st) n pr \<and> reports e pr" using d(3) by blast
qed

lemma bp_head:
  assumes "visit g d st = Inl e" and "blame_post g d st e"
  shows "blame_posts g (d # ds) st e"
  unfolding blame_posts_def
proof
  assume pre: "sort_inv g st \<and> path_ok g (visiting st) (d # ds)"
  have ok: "path_ok g (visiting st) [d]" using pre path_ok_head by blast
  have "troubled g d" using assms(1) ok by (rule failure_troubled)
  then have f: "find (troubled g) (d # ds) = Some d" by simp
  obtain pr where "first_problem g (visiting st) d pr" "reports e pr"
    using assms(2) pre ok unfolding blame_post_def by blast
  then show "\<exists>d' pr. find (troubled g) (d # ds) = Some d' \<and> first_problem g (visiting st) d' pr \<and>
           reports e pr" using f by blast
qed

lemma bp_tail:
  assumes "visit g d st = Inr st1" and "forEach_visit g ds st1 = Inl e"
    and "blame_posts g ds st1 e"
  shows "blame_posts g (d # ds) st e"
  unfolding blame_posts_def
proof
  assume pre: "sort_inv g st \<and> path_ok g (visiting st) (d # ds)"
  have s: "\<not> troubled g d" "sort_inv g st1" "visiting st1 = visiting st"
    using success_not_troubled [OF assms(1)] pre by simp_all
  have ok: "path_ok g (visiting st1) ds" unfolding s(3) using pre path_ok_tail by blast
  obtain d' pr where d': "find (troubled g) ds = Some d'" "first_problem g (visiting st1) d' pr"
      "reports e pr"
    using assms(3) s(2) ok unfolding blame_posts_def by blast
  have "find (troubled g) (d # ds) = Some d'" using s(1) d'(1) by simp
  then show "\<exists>d' pr. find (troubled g) (d # ds) = Some d' \<and> first_problem g (visiting st) d' pr \<and>
           reports e pr" using d'(2,3) unfolding s(3) by blast
qed

lemma blame_forEach:
  fixes g :: "'a TaskGraph"
  assumes "forEach_visit g ds st = Inl e"
  shows "blame_posts g ds st e"
proof -
  have "g = g \<longrightarrow> (\<forall>e. forEach_visit g ds st = Inl e \<longrightarrow> blame_posts g ds st e)"
    by (rule visit_failure_induct_aux(2) [where g = g and P = "blame_post g"
          and Q = "blame_posts g"])
       (rule bp_cyc, assumption+, rule bp_missing, assumption+, rule bp_node, assumption+,
        rule bp_head, assumption+, rule bp_tail, assumption+)
  then show ?thesis using assms by blast
qed

lemma sort_failure_first_problem:
  assumes "topologicalSort g = Inl e"
  shows "\<exists>k pr. find (troubled g) (map fst g) = Some k \<and> first_problem g [] k pr \<and>
           (\<forall>pr'. first_problem g [] k pr' \<longrightarrow> pr' = pr) \<and> reports e pr"
proof -
  have "forEach_visit g (map fst g) init_state = Inl e"
    using assms by (simp add: topologicalSort_Inl)
  then have "blame_posts g (map fst g) init_state e" by (rule blame_forEach)
  moreover have "path_ok g (visiting init_state) (map fst g)"
    by (auto simp: path_ok_def init_state_def get_def map_of_eq_None_iff)
  moreover have v: "visiting init_state = []" by (simp add: init_state_def)
  ultimately obtain k pr where k: "find (troubled g) (map fst g) = Some k"
      "first_problem g [] k pr" "reports e pr"
    using sort_inv_init [of g] unfolding blame_posts_def by auto
  have "\<forall>pr'. first_problem g [] k pr' \<longrightarrow> pr' = pr"
    using first_problem_unique [OF k(2)] by blast
  then show ?thesis using k by blast
qed

text \<open>
  Claim C8, as the code has it. Let a registered task \<open>t\<close> declare a dependency \<open>d\<close> that
  was never added. Then plan computation fails, and so do \<open>execute\<close> and
  \<open>executeParallel\<close>, with no action invoked. The error is that of the first problem
  met: take the first troubled name \<open>k\<close> among the registered names, in registration
  order, and go down from it, at each task to its first troubled dependency in
  declaration order, until a name is missing or already on the way; this problem is
  unique, and the error is "task not found" with the missing name, or a cycle error
  whose path ends with the repeated name. So the error is a cycle error or a "task not
  found" error that names a dependency declared by a registered task and never added.
  In a graph without cycles it is the latter, and it names \<open>d\<close> when \<open>d\<close> is the only
  such name.
\<close>

theorem missing_dependency_fails:
  assumes ref: "(t, d) \<in> dep_rel g" and missing: "d \<notin> fst ` set g"
  shows "\<exists>e.
     topologicalSort g = Inl e \<and>
     execute g s = (Inl e, s, []) \<and>
     executeParallel first_rejected settles g = (Inl e, {}) \<and>
     (\<exists>k pr. find (troubled g) (map fst g) = Some k \<and> first_problem g [] k pr \<and>
        (\<forall>pr'. first_problem g [] k pr' \<longrightarrow> pr' = pr) \<and> reports e pr) \<and>
     ((\<exists>path. e = CyclicDependencyError path) \<or>
      (\<exists>m. e = Error (''Task not found: '' @ m) \<and> m \<notin> fst ` set g \<and> m \<in> Range (dep_rel g))) \<and>
     ((\<forall>t'. (t', t') \<notin> (dep_rel g)\<^sup>+) \<longrightarrow>
        (\<exists>m. e = Error (''Task not found: '' @ m) \<and> m \<notin> fst ` set g \<and> m \<in> Range (dep_rel g) \<and>
           (Range (dep_rel g) - fst ` set g = {d} \<longrightarrow> m = d)))"
proof -
  obtain e where e: "topologicalSort g = Inl e"
    using missing_not_sorted [OF ref missing] by (cases "topologicalSort g") auto
  have f: "failure_ok g e" using e by (rule sort_failure)
  have not_found: "m \<notin> fst ` set g \<and> m \<in> Range (dep_rel g)"
    if "get g m = None" "(t', m) \<in> dep_rel g" for m t'
    using that by (auto simp: get_def map_of_eq_None_iff)
  have c4: "(\<exists>path. e = CyclicDependencyError path) \<or>
      (\<exists>m. e = Error (''Task not found: '' @ m) \<and> m \<notin> fst ` set g \<and> m \<in> Range (dep_rel g))"
    using f not_found unfolding failure_ok_def by blast
  have c5: "\<exists>m. e = Error (''Task not found: '' @ m) \<and> m \<notin> fst ` set g \<and> m \<in> Range (dep_rel g) \<and>
           (Range (dep_rel g) - fst ` set g = {d} \<longrightarrow> m = d)"
    if acyclic: "\<forall>t'. (t', t') \<notin> (dep_rel g)\<^sup>+"
  proof -
    have "\<not> (\<exists>lead cyc. e = CyclicDependencyError (lead @ cyc) \<and> cycle_path g cyc)"
      using cycle_path_trancl [of g] acyclic by blast
    then obtain m t' where m: "e = Error (''Task not found: '' @ m)" "get g m = None"
        "(t', m) \<in> dep_rel g"
      using f unfolding failure_ok_def by blast
    have "m \<notin> fst ` set g \<and> m \<in> Range (dep_rel g)" using m(2,3) by (rule not_found)
    then show ?thesis using m(1) by blast
  qed
  have c5': "(\<forall>t'. (t', t') \<notin> (dep_rel g)\<^sup>+) \<longrightarrow>
        (\<exists>m. e = Error (''Task not found: '' @ m) \<and> m \<notin> fst ` set g \<and> m \<in> Range (dep_rel g) \<and>
           (Range (dep_rel g) - fst ` set g = {d} \<longrightarrow> m = d))"
    using c5 by (rule impI)
  have c3: "\<exists>k pr. find (troubled g) (map fst g) = Some k \<and> first_problem g [] k pr \<and>
        (\<forall>pr'. first_problem g [] k pr' \<longrightarrow> pr' = pr) \<and> reports e pr"
    using e by (rule sort_failure_first_problem)
  note x1 = sort_Inl_execute(1) [OF e, of s]
  note x2 = sort_Inl_execute(2) [OF e, of first_rejected settles]
  show ?thesis
    by (rule exI [of _ e], intro conjI) (rule e x1 x2 c3 c4 c5')+
qed







lemma two_missing_sort: "topologicalSort two_missing = Inl (Error ''Task not found: M1'')"
  by (simp add: topologicalSort_def two_missing_def visit.simps get_def set_add_def set_delete_def)

lemma one_missing_dep_rel: "dep_rel one_missing = {(''A'', ''M'')}"
  by (auto simp: dep_rel_def deps_def get_def one_missing_def split: if_splits)



text \<open>
  The first problem of three graphs. In the graph with the two missing names it is the
  missing \<open>M1\<close>, under \<open>A\<close>, which is registered first; in the graph with a missing name
  under \<open>X\<close> and a cycle registered after \<open>X\<close> it is the missing \<open>M\<close>.
\<close>

lemma first_problem_missing_dep:
  assumes td: "get g a = Some td" and ds: "dependencies td = [m]" and m: "get g m = None"
    and ne: "m \<noteq> a"
  shows "troubled g a" and "first_problem g [] a (Missing m)"
proof -
  have tm: "troubled g m" using m by (rule troubled_missing)
  have "(a, m) \<in> dep_rel g" by (simp add: dep_rel_def deps_Some [OF td] ds)
  then show "troubled g a" using tm by (rule troubled_step)
  have f: "find (troubled g) (dependencies td) = Some m" using tm by (simp add: ds)
  have "first_problem g ([] @ [a]) m (Missing m)" using ne m by (intro first_problem.missing) simp_all
  then show "first_problem g [] a (Missing m)"
    using td f by (intro first_problem.descend [where n = a and td = td and d = m]) simp_all
qed

lemma one_missing_first_problem:
  "find (troubled one_missing) (map fst one_missing) = Some ''A''"
  "first_problem one_missing [] ''A'' (Missing ''M'')"
proof -
  have td: "get one_missing ''A'' = Some \<lparr>name = ''A'', dependencies = [''M''], task = noop\<rparr>"
    by (simp add: one_missing_def get_def)
  have m: "get one_missing ''M'' = None" by (simp add: one_missing_def get_def)
  have ne: "''M'' \<noteq> ''A''" by simp
  have ds: "dependencies \<lparr>name = ''A'', dependencies = [''M''], task = noop\<rparr> = [''M'']" by simp
  note fp = first_problem_missing_dep [OF td ds m ne]
  show "find (troubled one_missing) (map fst one_missing) = Some ''A''"
    using fp(1) by (simp add: one_missing_def)
  show "first_problem one_missing [] ''A'' (Missing ''M'')" by (rule fp(2))
qed

lemma two_missing_first_problem:
  "find (troubled two_missing) (map fst two_missing) = Some ''A''"
  "first_problem two_missing [] ''A'' (Missing ''M1'')"
proof -
  have td: "get two_missing ''A'' = Some \<lparr>name = ''A'', dependencies = [''M1''], task = noop\<rparr>"
    by (simp add: two_missing_def get_def)
  have m: "get two_missing ''M1'' = None" by (simp add: two_missing_def get_def)
  have ne: "''M1'' \<noteq> ''A''" by simp
  have ds: "dependencies \<lparr>name = ''A'', dependencies = [''M1''], task = noop\<rparr> = [''M1'']" by simp
  note fp = first_problem_missing_dep [OF td ds m ne]
  show "find (troubled two_missing) (map fst two_missing) = Some ''A''"
    using fp(1) by (simp add: two_missing_def)
  show "first_problem two_missing [] ''A'' (Missing ''M1'')" by (rule fp(2))
qed

lemma mixed_graph_first_problem:
  "find (troubled mixed_graph) (map fst mixed_graph) = Some ''X''"
  "first_problem mixed_graph [] ''X'' (Missing ''M'')"
proof -
  have td: "get mixed_graph ''X'' = Some \<lparr>name = ''X'', dependencies = [''M''], task = noop\<rparr>"
    by (simp add: mixed_graph_def get_def)
  have m: "get mixed_graph ''M'' = None" by (simp add: mixed_graph_def get_def)
  have ne: "''M'' \<noteq> ''X''" by simp
  have ds: "dependencies \<lparr>name = ''X'', dependencies = [''M''], task = noop\<rparr> = [''M'']" by simp
  note fp = first_problem_missing_dep [OF td ds m ne]
  show "find (troubled mixed_graph) (map fst mixed_graph) = Some ''X''"
    using fp(1) by (simp add: mixed_graph_def)
  show "first_problem mixed_graph [] ''X'' (Missing ''M'')" by (rule fp(2))
qed

text \<open>
  The theorem at one task \<open>A\<close> that depends on the missing \<open>M\<close>: the first troubled
  name is \<open>A\<close>, the first problem under it is the missing \<open>M\<close>, and the error names \<open>M\<close>.
\<close>

theorem missing_dependency_fails_witness:
  "(''A'', ''M'') \<in> dep_rel one_missing \<and> ''M'' \<notin> fst ` set one_missing \<and>
   \<not> (\<exists>t'. (t', t') \<in> (dep_rel one_missing)\<^sup>+) \<and>
   Range (dep_rel one_missing) - fst ` set one_missing = {''M''} \<and>
   find (troubled one_missing) (map fst one_missing) = Some ''A'' \<and>
   first_problem one_missing [] ''A'' (Missing ''M'') \<and>
   reports (Error ''Task not found: M'') (Missing ''M'') \<and>
   topologicalSort one_missing = Inl (Error ''Task not found: M'') \<and>
   execute one_missing () = (Inl (Error ''Task not found: M''), (), []) \<and>
   executeParallel hd a_fails one_missing = (Inl (Error ''Task not found: M''), {})"
proof -
  have ref: "(''A'', ''M'') \<in> dep_rel one_missing" by (simp add: one_missing_dep_rel)
  have missing: "''M'' \<notin> fst ` set one_missing" by (simp add: one_missing_def)
  have acyclic: "\<forall>t'. (t', t') \<notin> (dep_rel one_missing)\<^sup>+"
  proof (intro allI notI)
    fix t' assume "(t', t') \<in> (dep_rel one_missing)\<^sup>+"
    then have "t' = ''A'' \<and> t' = ''M''"
      unfolding one_missing_dep_rel by (rule singleton_trancl)
    then have "''A'' = ''M''" by (elim conjE) (rule trans [OF sym])
    then show False by simp
  qed
  have only: "Range (dep_rel one_missing) - fst ` set one_missing = {''M''}"
    unfolding one_missing_dep_rel by (simp add: one_missing_def)
  obtain e where h:
    "topologicalSort one_missing = Inl e"
    "execute one_missing () = (Inl e, (), [])"
    "executeParallel hd a_fails one_missing = (Inl e, {})"
    "(\<forall>t'. (t', t') \<notin> (dep_rel one_missing)\<^sup>+) \<longrightarrow>
        (\<exists>m. e = Error (''Task not found: '' @ m) \<and> m \<notin> fst ` set one_missing \<and>
           m \<in> Range (dep_rel one_missing) \<and>
           (Range (dep_rel one_missing) - fst ` set one_missing = {''M''} \<longrightarrow> m = ''M''))"
    "\<exists>k pr. find (troubled one_missing) (map fst one_missing) = Some k \<and>
        first_problem one_missing [] k pr \<and>
        (\<forall>pr'. first_problem one_missing [] k pr' \<longrightarrow> pr' = pr) \<and> reports e pr"
    using missing_dependency_fails [OF ref missing, of "()" hd a_fails] by blast
  obtain m where m: "e = Error (''Task not found: '' @ m)"
      "Range (dep_rel one_missing) - fst ` set one_missing = {''M''} \<longrightarrow> m = ''M''"
    using h(4) acyclic by blast
  have e: "e = Error ''Task not found: M''" using m only by simp
  obtain k pr where k: "find (troubled one_missing) (map fst one_missing) = Some k"
      "first_problem one_missing [] k pr"
      "\<forall>pr'. first_problem one_missing [] k pr' \<longrightarrow> pr' = pr" "reports e pr"
    using h(5) by blast
  have k_eq: "k = ''A''" using k(1) one_missing_first_problem(1) by simp
  have pr_eq: "pr = Missing ''M''"
    using k(3) one_missing_first_problem(2) unfolding k_eq by blast
  have c0: "reports (Error ''Task not found: M'') (Missing ''M'')"
    using k(4) unfolding pr_eq e .
  have nex: "\<not> (\<exists>t'. (t', t') \<in> (dep_rel one_missing)\<^sup>+)" using acyclic by blast
  have c1: "topologicalSort one_missing = Inl (Error ''Task not found: M'')"
    using h(1) by (simp only: e)
  have c2: "execute one_missing () = (Inl (Error ''Task not found: M''), (), [])"
    using h(2) by (simp only: e)
  have c3: "executeParallel hd a_fails one_missing = (Inl (Error ''Task not found: M''), {})"
    using h(3) by (simp only: e)
  show ?thesis
    by (intro conjI)
       (rule ref missing nex only one_missing_first_problem c0 c1 c2 c3)+
qed

text \<open>
  Claim C8 as it is worded fails when two names are missing: \<open>M2\<close> is declared by \<open>B\<close>
  and was never added, and the error names \<open>M1\<close>, which the traversal meets first.
\<close>

theorem missing_dependency_named_counterexample:
  "(''B'', ''M2'') \<in> dep_rel two_missing \<and> ''M2'' \<notin> fst ` set two_missing \<and>
   topologicalSort two_missing = Inl (Error ''Task not found: M1'') \<and>
   Error ''Task not found: M1'' \<noteq> Error ''Task not found: M2''"
proof -
  have c1: "(''B'', ''M2'') \<in> dep_rel two_missing"
    by (simp add: dep_rel_def deps_def get_def two_missing_def)
  have c2: "''M2'' \<notin> fst ` set two_missing" by (simp add: two_missing_def)
  have c4: "Error ''Task not found: M1'' \<noteq> Error ''Task not found: M2''" by simp
  show ?thesis
    by (intro conjI) (rule c1 c2 two_missing_sort c4)+
qed

section \<open>The retrying JSON task\<close>

lemma extends_refl: "extends c c"
  by (simp add: extends_def)

lemma extends_push: "extends c0 c \<Longrightarrow> extends c0 (push m c)"
  by (auto simp: extends_def push_def)

lemma extends_trans: "extends c0 c1 \<Longrightarrow> extends c1 c2 \<Longrightarrow> extends c0 c2"
  by (auto simp: extends_def)

lemma complete_summary:
  assumes "complete key cc parse v opts st = (x, st1)"
  shows "\<exists>a. step_summary key parse v st x st1 a"
proof -
  obtain a p where cc: "cc (port st) (innerContext st) opts = (a, p)"
    by (cases "cc (port st) (innerContext st) opts")
  show ?thesis
  proof (cases a)
    case (Inl e)
    then have "x = Inl e" and "st1 = st\<lparr>port := p, calls := calls st @ [(innerContext st, Inl e)]\<rparr>"
      using assms cc by (simp_all add: complete_def)
    then have "step_summary key parse v st x st1 (Inl e)"
      by (simp add: step_summary_def extends_refl attempt_ok_def)
    then show ?thesis ..
  next
    case (Inr c)
    let ?st1 = "st\<lparr>port := p, calls := calls st @ [(innerContext st, Inr c)],
                   innerContext := push (message c) (innerContext st)\<rparr>"
    have ext: "extends (innerContext st) (innerContext ?st1)"
      by (simp add: extends_push extends_refl)
    show ?thesis
    proof (cases "parse (content (message c))")
      case None
      then have "x = Inl (Error ''Message is not valid JSON'')" and "st1 = ?st1"
        using assms cc Inr by (simp_all add: complete_def Let_def)
      then have "step_summary key parse v st x st1 (Inr c)"
        using None ext by (simp add: step_summary_def attempt_ok_def)
      then show ?thesis ..
    next
      case (Some j)
      show ?thesis
      proof (cases "v j")
        case Valid
        then have "x = Inr ()" and "st1 = ?st1\<lparr>target := message_set key j
              (Some (completion (usage c))) (target ?st1)\<rparr>"
          using assms cc Inr Some by (simp_all add: complete_def Let_def)
        then have "step_summary key parse v st x st1 (Inr c)"
          using Some Valid ext by (simp add: step_summary_def)
        then show ?thesis ..
      next
        case (Invalid m)
        then have "\<exists>e. x = Inl e" and "st1 = ?st1"
          using assms cc Inr Some by (auto simp: complete_def Let_def)
        then have "step_summary key parse v st x st1 (Inr c)"
          using Some Invalid ext by (auto simp: step_summary_def attempt_ok_def)
        then show ?thesis ..
      qed
    qed
  qed
qed

lemma run_summary_exhausted:
  assumes "\<not> i < maxTries"
  shows "run_summary key parse v maxTries i st
           (Inl (Error (''Unable to parse response after '' @ show_nat maxTries @ '' tries''))) st"
  unfolding run_summary_def
  by (rule exI [of _ "[]"]) (use assms in \<open>simp add: extends_refl\<close>)

lemma run_summary_success:
  assumes "step_summary key parse v st (Inr u) st1 a" and "i < maxTries"
  shows "run_summary key parse v maxTries i st (Inr ()) st1"
proof -
  obtain c j where h: "calls st1 = calls st @ [(innerContext st, a)]"
      "extends (innerContext st) (innerContext st1)"
      "a = Inr c" "parse (content (message c)) = Some j" "v j = Valid"
      "target st1 = message_set key j (Some (completion (usage c))) (target st)"
    using assms(1) unfolding step_summary_def by auto
  show ?thesis
    unfolding run_summary_def
    by (rule exI [of _ "[(innerContext st, a)]"])
       (use h assms(2) in \<open>simp add: extends_refl\<close>)
qed

lemma run_summary_retry:
  assumes step: "step_summary key parse v st (Inl e) st1 a" and lt: "i < maxTries"
    and st2: "innerContext st2 = push fb (innerContext st1)" "calls st2 = calls st1"
      "target st2 = target st1"
    and rest: "run_summary key parse v maxTries (Suc i) st2 r st'"
  shows "run_summary key parse v maxTries i st r st'"
proof -
  have h: "calls st1 = calls st @ [(innerContext st, a)]"
      "extends (innerContext st) (innerContext st1)"
      "\<not> attempt_ok parse v a" "target st1 = target st"
    using step unfolding step_summary_def by auto
  have e2: "extends (innerContext st) (innerContext st2)"
    using h(2) by (simp add: st2(1) extends_push)
  obtain new where n: "calls st' = calls st2 @ new" "length new \<le> maxTries - Suc i"
      "\<forall>a \<in> set (butlast (map snd new)). \<not> attempt_ok parse v a"
      "\<forall>conv \<in> set (map fst new). extends (innerContext st2) conv"
      "extends (innerContext st2) (innerContext st')"
      "case r of
           Inr u \<Rightarrow>
             new \<noteq> [] \<and>
             (\<exists>c j. snd (last new) = Inr c \<and> parse (content (message c)) = Some j \<and>
                v j = Valid \<and>
                target st' = message_set key j (Some (completion (usage c))) (target st2))
         | Inl e \<Rightarrow>
             length new = maxTries - Suc i \<and>
             (\<forall>a \<in> set (map snd new). \<not> attempt_ok parse v a) \<and>
             e = Error (''Unable to parse response after '' @ show_nat maxTries @ '' tries'') \<and>
             target st' = target st2"
    using rest unfolding run_summary_def by blast
  let ?new = "(innerContext st, a) # new"
  have c1: "calls st' = calls st @ ?new" using n(1) h(1) st2(2) by simp
  have c2: "length ?new \<le> maxTries - i" using n(2) lt by simp
  have c3: "\<forall>a \<in> set (butlast (map snd ?new)). \<not> attempt_ok parse v a"
    using n(3) h(3) by (cases new) simp_all
  have c4: "\<forall>conv \<in> set (map fst ?new). extends (innerContext st) conv"
    using n(4) e2 extends_trans [OF e2] by (auto simp: extends_refl)
  have c5: "extends (innerContext st) (innerContext st')"
    using e2 n(5) by (rule extends_trans)
  have c6: "case r of
           Inr u \<Rightarrow>
             ?new \<noteq> [] \<and>
             (\<exists>c j. snd (last ?new) = Inr c \<and> parse (content (message c)) = Some j \<and>
                v j = Valid \<and>
                target st' = message_set key j (Some (completion (usage c))) (target st))
         | Inl e \<Rightarrow>
             length ?new = maxTries - i \<and>
             (\<forall>a \<in> set (map snd ?new). \<not> attempt_ok parse v a) \<and>
             e = Error (''Unable to parse response after '' @ show_nat maxTries @ '' tries'') \<and>
             target st' = target st"
  proof (cases r)
    case (Inl e')
    then show ?thesis using n(6) h(3,4) st2(3) lt by auto
  next
    case (Inr u)
    then show ?thesis using n(6) h(4) st2(3) by auto
  qed
  show ?thesis
    unfolding run_summary_def
    by (rule exI [of _ ?new]) (intro conjI c1 c2 c3 c4 c5 c6)
qed

lemma tries_summary:
  "tries key cc parse v opts maxTries i st = (r, st') \<Longrightarrow>
     run_summary key parse v maxTries i st r st'"
proof (induction "maxTries - i" arbitrary: i st)
  case 0
  then have "\<not> i < maxTries" by simp
  moreover from this have "r = Inl (Error (''Unable to parse response after '' @ show_nat maxTries @ '' tries''))"
      and "st' = st"
    using "0.prems" by (simp_all add: tries.simps [of _ _ _ _ _ _ i])
  ultimately show ?case using run_summary_exhausted by simp
next
  case (Suc k)
  then have lt: "i < maxTries" by simp
  obtain x st1 where c: "complete key cc parse v opts st = (x, st1)"
    by (cases "complete key cc parse v opts st")
  obtain a where step: "step_summary key parse v st x st1 a"
    using complete_summary [OF c] by blast
  show ?case
  proof (cases x)
    case (Inr u)
    then have "r = Inr ()" and "st' = st1"
      using Suc.prems lt c by (simp_all add: tries.simps [of _ _ _ _ _ _ i])
    then show ?thesis using run_summary_success [of key parse v st u st1 a i maxTries] step Inr lt
      by simp
  next
    case (Inl e)
    let ?fb = "UserChatMessage
                   (''Unable to parse response. Please fix the error and try again.''
                    @ newline @ newline @ ''Error: '' @ error_message e)"
    let ?st2 = "st1\<lparr>innerContext := push ?fb (innerContext st1)\<rparr>"
    have run: "tries key cc parse v opts maxTries (Suc i) ?st2 = (r, st')"
      using Suc.prems lt c Inl by (simp add: tries.simps [of _ _ _ _ _ _ i])
    have "k = maxTries - Suc i" using Suc.hyps(2) by simp
    then have "run_summary key parse v maxTries (Suc i) ?st2 r st'"
      using run by (rule Suc.hyps(1))
    then show ?thesis
      using step Inl lt
      by (intro run_summary_retry [of key parse v st e st1 a i maxTries ?st2 ?fb]) simp_all
  qed
qed

lemmas json_eval =
  createJsonTask_def tries.simps complete_def Let_def push_def new_Context_def
  SystemChatMessage_def UserChatMessage_def message_set_def parse_ex_def always_valid_def
  reply_def user_msg_def shared_ctx_def

lemma show_nat_two: "show_nat 2 = ''2''"
  by code_simp

lemma flaky_run:
  "createJsonTask ''keywords'' flaky_port parse_ex always_valid ''sys'' 3 None user_msg shared_ctx 0 =
     \<lparr>outcome = Inr (),
      message_after = message_set ''keywords'' [] (Some 5) user_msg,
      context_after = shared_ctx,
      port_after = 2,
      port_calls =
        [(\<lparr>messages = [SystemChatMessage ''sys'', UserChatMessage ''hello''], context_data = []\<rparr>,
          Inl (Error ''Chat completion failed: Bad Gateway'')),
         (\<lparr>messages = [SystemChatMessage ''sys'', UserChatMessage ''hello'',
             UserChatMessage (''Unable to parse response. Please fix the error and try again.''
               @ newline @ newline @ ''Error: Chat completion failed: Bad Gateway'')],
            context_data = []\<rparr>,
          Inr (reply ''[]''))],
      conversation =
        \<lparr>messages = [SystemChatMessage ''sys'', UserChatMessage ''hello'',
             UserChatMessage (''Unable to parse response. Please fix the error and try again.''
               @ newline @ newline @ ''Error: Chat completion failed: Bad Gateway''),
             message (reply ''[]'')],
         context_data = []\<rparr>\<rparr>"
  by (simp add: json_eval flaky_port_def)

lemma dead_run_outcome:
  "outcome (createJsonTask ''keywords'' dead_port parse_ex always_valid ''sys'' 2 None
      user_msg shared_ctx 0) = Inl (Error ''Unable to parse response after 2 tries'')"
  "map snd (port_calls (createJsonTask ''keywords'' dead_port parse_ex always_valid ''sys'' 2 None
      user_msg shared_ctx 0)) =
     [Inl (Error ''Chat completion failed: Bad Gateway''),
      Inl (Error ''Chat completion failed: Bad Gateway'')]"
  by (simp_all add: json_eval dead_port_def show_nat_two)

lemma third_time_run:
  "outcome (createJsonTask ''keywords'' third_time_port parse_ex always_valid ''sys'' 3 None
      user_msg shared_ctx 0) = Inr ()"
  "map snd (port_calls (createJsonTask ''keywords'' third_time_port parse_ex always_valid ''sys'' 3
      None user_msg shared_ctx 0)) = [Inr (reply ''oops''), Inr (reply ''oops''), Inr (reply ''[]'')]"
  "message_after (createJsonTask ''keywords'' third_time_port parse_ex always_valid ''sys'' 3
      None user_msg shared_ctx 0) = message_set ''keywords'' [] (Some 5) user_msg"
  by (simp_all add: json_eval third_time_port_def)

lemma garbage_run:
  "outcome (createJsonTask k garbage_port parse_ex always_valid ''sys'' 2 None
      user_msg shared_ctx 0) = Inl (Error ''Unable to parse response after 2 tries'')"
  "map snd (port_calls (createJsonTask k garbage_port parse_ex always_valid ''sys'' 2
      None user_msg shared_ctx 0)) = [Inr (reply ''oops''), Inr (reply ''oops'')]"
  by (simp_all add: json_eval garbage_port_def show_nat_two)

lemma run_summaryE:
  assumes "run_summary key parse v maxTries i st r st'"
  obtains new where "calls st' = calls st @ new" and "length new \<le> maxTries - i"
    and "\<forall>a \<in> set (butlast (map snd new)). \<not> attempt_ok parse v a"
    and "\<forall>conv \<in> set (map fst new). extends (innerContext st) conv"
    and "extends (innerContext st) (innerContext st')"
    and "\<And>u. r = Inr u \<Longrightarrow> new \<noteq> [] \<and>
             (\<exists>c j. snd (last new) = Inr c \<and> parse (content (message c)) = Some j \<and>
                v j = Valid \<and>
                target st' = message_set key j (Some (completion (usage c))) (target st))"
    and "\<And>e. r = Inl e \<Longrightarrow> length new = maxTries - i \<and>
             (\<forall>a \<in> set (map snd new). \<not> attempt_ok parse v a) \<and>
             e = Error (''Unable to parse response after '' @ show_nat maxTries @ '' tries'') \<and>
             target st' = target st"
proof -
  obtain new where n: "calls st' = calls st @ new" "length new \<le> maxTries - i"
      "\<forall>a \<in> set (butlast (map snd new)). \<not> attempt_ok parse v a"
      "\<forall>conv \<in> set (map fst new). extends (innerContext st) conv"
      "extends (innerContext st) (innerContext st')"
      "case r of
           Inr u \<Rightarrow>
             new \<noteq> [] \<and>
             (\<exists>c j. snd (last new) = Inr c \<and> parse (content (message c)) = Some j \<and>
                v j = Valid \<and>
                target st' = message_set key j (Some (completion (usage c))) (target st))
         | Inl e \<Rightarrow>
             length new = maxTries - i \<and>
             (\<forall>a \<in> set (map snd new). \<not> attempt_ok parse v a) \<and>
             e = Error (''Unable to parse response after '' @ show_nat maxTries @ '' tries'') \<and>
             target st' = target st"
    using assms unfolding run_summary_def by blast
  show ?thesis
  proof (rule that [OF n(1-5)])
    fix u assume "r = Inr u"
    then show "new \<noteq> [] \<and>
             (\<exists>c j. snd (last new) = Inr c \<and> parse (content (message c)) = Some j \<and>
                v j = Valid \<and>
                target st' = message_set key j (Some (completion (usage c))) (target st))"
      using n(6) by simp
  next
    fix e assume "r = Inl e"
    then show "length new = maxTries - i \<and>
             (\<forall>a \<in> set (map snd new). \<not> attempt_ok parse v a) \<and>
             e = Error (''Unable to parse response after '' @ show_nat maxTries @ '' tries'') \<and>
             target st' = target st"
      using n(6) by simp
  qed
qed

lemma createJsonTask_summary:
  assumes "res = createJsonTask key cc parse v sys maxTries options msg ctx p"
  shows "\<exists>st'. run_summary key parse v maxTries 0
           \<lparr>innerContext = push (UserChatMessage (content msg))
                             (push (SystemChatMessage sys) new_Context),
            target = msg, port = p, calls = []\<rparr> (outcome res) st' \<and>
         message_after res = target st' \<and> context_after res = ctx \<and>
         port_calls res = calls st' \<and> conversation res = innerContext st'"
proof -
  let ?st0 = "\<lparr>innerContext = push (UserChatMessage (content msg))
                             (push (SystemChatMessage sys) new_Context),
            target = msg, port = p, calls = []\<rparr>"
  obtain r st' where run: "tries key cc parse v options maxTries 0 ?st0 = (r, st')"
    by (cases "tries key cc parse v options maxTries 0 ?st0")
  have "run_summary key parse v maxTries 0 ?st0 r st'" using run by (rule tries_summary)
  moreover have "res = \<lparr>outcome = r, message_after = target st', context_after = ctx,
              port_after = port st', port_calls = calls st', conversation = innerContext st'\<rparr>"
    using assms run by (simp add: createJsonTask_def Let_def)
  ultimately show ?thesis by auto
qed

lemma message_get_set: "message_get (message_set key j sz m) key = Some j"
  by (simp add: message_get_def message_set_def update_conv')

lemma message_get_set_other:
  "k \<noteq> key \<Longrightarrow> message_get (message_set key j sz m) k = message_get m k"
  by (simp add: message_get_def message_set_def update_conv')

text \<open>
  Claim C7, as the code has it. One invocation of the task calls the port at most
  \<open>maxTries\<close> times, and every answer but the last one fails to decode or to validate.
  When the task succeeds, the last answer decodes to a value \<open>j\<close> that validates, no
  call follows it, and the message is the one given with \<open>j\<close> stored under the key of the
  task. When it fails, exactly \<open>maxTries\<close> calls were made, none of them answered well,
  the message is unchanged, and the error is
  \<open>Unable to parse response after maxTries tries\<close>: it gives the count and not the key.
\<close>

theorem createJsonTask_bounded_retries:
  assumes res: "res = createJsonTask key chatCompletion parse validateJson sys maxTries options msg ctx p"
    and answers: "answers = map snd (port_calls res)"
  shows "length answers \<le> maxTries \<and>
     (\<forall>a \<in> set (butlast answers). \<not> attempt_ok parse validateJson a) \<and>
     (case outcome res of
        Inr u \<Rightarrow>
          answers \<noteq> [] \<and>
          (\<exists>c j. last answers = Inr c \<and> parse (content (message c)) = Some j \<and>
             validateJson j = Valid \<and>
             message_after res = message_set key j (Some (completion (usage c))) msg \<and>
             message_get (message_after res) key = Some j)
      | Inl e \<Rightarrow>
          length answers = maxTries \<and>
          (\<forall>a \<in> set answers. \<not> attempt_ok parse validateJson a) \<and>
          e = Error (''Unable to parse response after '' @ show_nat maxTries @ '' tries'') \<and>
          message_after res = msg)"
proof -
  obtain st' where s: "run_summary key parse validateJson maxTries 0
           \<lparr>innerContext = push (UserChatMessage (content msg))
                             (push (SystemChatMessage sys) new_Context),
            target = msg, port = p, calls = []\<rparr> (outcome res) st'"
      "message_after res = target st'" "port_calls res = calls st'"
    using createJsonTask_summary [OF res] by blast
  from s(1) obtain new where n0: "calls st' = [] @ new" "length new \<le> maxTries - 0"
      "\<forall>a \<in> set (butlast (map snd new)). \<not> attempt_ok parse validateJson a"
    and ok: "\<And>u. outcome res = Inr u \<Longrightarrow> new \<noteq> [] \<and>
             (\<exists>c j. snd (last new) = Inr c \<and> parse (content (message c)) = Some j \<and>
                validateJson j = Valid \<and>
                target st' = message_set key j (Some (completion (usage c))) msg)"
    and bad: "\<And>e. outcome res = Inl e \<Longrightarrow> length new = maxTries - 0 \<and>
             (\<forall>a \<in> set (map snd new). \<not> attempt_ok parse validateJson a) \<and>
             e = Error (''Unable to parse response after '' @ show_nat maxTries @ '' tries'') \<and>
             target st' = msg"
    by (rule run_summaryE) simp_all
  have n: "calls st' = new" "length new \<le> maxTries"
      "\<forall>a \<in> set (butlast (map snd new)). \<not> attempt_ok parse validateJson a"
    using n0 by simp_all
  have a: "answers = map snd new" using answers s(3) n(1) by simp
  have c1: "length answers \<le> maxTries" using n(2) a by simp
  have c2: "\<forall>a \<in> set (butlast answers). \<not> attempt_ok parse validateJson a"
    using n(3) a by simp
  have c3: "case outcome res of
        Inr u \<Rightarrow>
          answers \<noteq> [] \<and>
          (\<exists>c j. last answers = Inr c \<and> parse (content (message c)) = Some j \<and>
             validateJson j = Valid \<and>
             message_after res = message_set key j (Some (completion (usage c))) msg \<and>
             message_get (message_after res) key = Some j)
      | Inl e \<Rightarrow>
          length answers = maxTries \<and>
          (\<forall>a \<in> set answers. \<not> attempt_ok parse validateJson a) \<and>
          e = Error (''Unable to parse response after '' @ show_nat maxTries @ '' tries'') \<and>
          message_after res = msg"
  proof (cases "outcome res")
    case (Inl e)
    then show ?thesis using bad [OF Inl] a s(2) by simp
  next
    case (Inr u)
    then obtain c j where h: "new \<noteq> []" "snd (last new) = Inr c"
        "parse (content (message c)) = Some j" "validateJson j = Valid"
        "target st' = message_set key j (Some (completion (usage c))) msg"
      using ok [OF Inr] by auto
    have "last answers = Inr c" using h(1,2) a by (simp add: last_map)
    then show ?thesis using Inr h a s(2) by (simp add: message_get_set)
  qed
  show ?thesis using c1 c2 c3 by blast
qed

text \<open>
  Claim C9. The task leaves the shared context as it was and does not read it: with
  another shared context the result is the same. Every conversation the port receives,
  and the one the task ends with, starts with the system instruction and the content of
  the message, and carries no data: it is the private conversation of this invocation.
  On success the message is the one given with one value stored under the key of the
  task; on failure it is unchanged; its role, content, size and every other key are
  unchanged in both cases.
\<close>

theorem createJsonTask_frame:
  assumes res: "res = createJsonTask key chatCompletion parse validateJson sys maxTries options msg ctx p"
  shows "context_after res = ctx \<and>
     createJsonTask key chatCompletion parse validateJson sys maxTries options msg ctx' p =
       res\<lparr>context_after := ctx'\<rparr> \<and>
     (\<forall>conv \<in> set (map fst (port_calls res)).
        take 2 (messages conv) = [SystemChatMessage sys, UserChatMessage (content msg)] \<and>
        context_data conv = []) \<and>
     take 2 (messages (conversation res)) = [SystemChatMessage sys, UserChatMessage (content msg)] \<and>
     (case outcome res of
        Inr u \<Rightarrow> (\<exists>j sz. message_after res = message_set key j sz msg)
      | Inl e \<Rightarrow> message_after res = msg) \<and>
     role (message_after res) = role msg \<and> content (message_after res) = content msg \<and>
     size (message_after res) = size msg \<and>
     (\<forall>k. k \<noteq> key \<longrightarrow> message_get (message_after res) k = message_get msg k)"
proof -
  let ?c0 = "push (UserChatMessage (content msg)) (push (SystemChatMessage sys) new_Context)"
  let ?st0 = "\<lparr>innerContext = ?c0, target = msg, port = p, calls = []\<rparr>"
  obtain st' where s: "run_summary key parse validateJson maxTries 0 ?st0 (outcome res) st'"
      "message_after res = target st'" "context_after res = ctx"
      "port_calls res = calls st'" "conversation res = innerContext st'"
    using createJsonTask_summary [OF res] by blast
  from s(1) obtain new where n0: "calls st' = [] @ new"
      "\<forall>conv \<in> set (map fst new). extends ?c0 conv"
      "extends ?c0 (innerContext st')"
    and ok: "\<And>u. outcome res = Inr u \<Longrightarrow> new \<noteq> [] \<and>
             (\<exists>c j. snd (last new) = Inr c \<and> parse (content (message c)) = Some j \<and>
                validateJson j = Valid \<and>
                target st' = message_set key j (Some (completion (usage c))) msg)"
    and bad: "\<And>e. outcome res = Inl e \<Longrightarrow> length new = maxTries - 0 \<and>
             (\<forall>a \<in> set (map snd new). \<not> attempt_ok parse validateJson a) \<and>
             e = Error (''Unable to parse response after '' @ show_nat maxTries @ '' tries'') \<and>
             target st' = msg"
    by (rule run_summaryE) simp_all
  have n: "calls st' = new" "\<forall>conv \<in> set (map fst new). extends ?c0 conv"
      "extends ?c0 (innerContext st')"
    using n0 by simp_all
  have start: "take 2 (messages conv) = [SystemChatMessage sys, UserChatMessage (content msg)] \<and>
      context_data conv = []" if "extends ?c0 conv" for conv
    using that by (auto simp: extends_def push_def new_Context_def)
  have c1: "context_after res = ctx" by (rule s(3))
  have c2: "createJsonTask key chatCompletion parse validateJson sys maxTries options msg ctx' p =
       res\<lparr>context_after := ctx'\<rparr>"
    unfolding res createJsonTask_def Let_def
    by (cases "tries key chatCompletion parse validateJson options maxTries 0 ?st0") simp
  have c3: "\<forall>conv \<in> set (map fst (port_calls res)).
        take 2 (messages conv) = [SystemChatMessage sys, UserChatMessage (content msg)] \<and>
        context_data conv = []"
    using n(2) start unfolding s(4) n(1) by blast
  have c4: "take 2 (messages (conversation res)) =
      [SystemChatMessage sys, UserChatMessage (content msg)]"
    using start [OF n(3)] by (simp add: s(5))
  have c5: "case outcome res of
        Inr u \<Rightarrow> (\<exists>j sz. message_after res = message_set key j sz msg)
      | Inl e \<Rightarrow> message_after res = msg"
  proof (cases "outcome res")
    case (Inl e)
    then show ?thesis using bad [OF Inl] s(2) by simp
  next
    case (Inr u)
    then show ?thesis using ok [OF Inr] s(2) by auto
  qed
  have shape: "\<exists>j sz. message_after res = message_set key j sz msg \<or> message_after res = msg"
    using c5 by (cases "outcome res") auto
  have c6: "role (message_after res) = role msg \<and> content (message_after res) = content msg \<and>
     size (message_after res) = size msg"
    using shape by (auto simp: message_set_def)
  have c7: "\<forall>k. k \<noteq> key \<longrightarrow> message_get (message_after res) k = message_get msg k"
    using shape by (auto simp: message_get_set_other)
  show ?thesis using c1 c2 c3 c4 c5 c6 c7 by blast
qed

text \<open>
  The theorem at a port that answers malformed content twice and a valid array the
  third time, with \<open>maxTries = 3\<close>.
\<close>

theorem createJsonTask_bounded_retries_witness:
  "length (map snd (port_calls (createJsonTask ''keywords'' third_time_port parse_ex always_valid
      ''sys'' 3 None user_msg shared_ctx 0))) \<le> 3 \<and>
   outcome (createJsonTask ''keywords'' third_time_port parse_ex always_valid
      ''sys'' 3 None user_msg shared_ctx 0) = Inr () \<and>
   map snd (port_calls (createJsonTask ''keywords'' third_time_port parse_ex always_valid
      ''sys'' 3 None user_msg shared_ctx 0)) =
     [Inr (reply ''oops''), Inr (reply ''oops''), Inr (reply ''[]'')] \<and>
   \<not> attempt_ok parse_ex always_valid (Inr (reply ''oops'')) \<and>
   message_get (message_after (createJsonTask ''keywords'' third_time_port parse_ex always_valid
      ''sys'' 3 None user_msg shared_ctx 0)) ''keywords'' = Some []"
proof -
  let ?R = "createJsonTask ''keywords'' third_time_port parse_ex always_valid
      ''sys'' 3 None user_msg shared_ctx 0"
  note main = createJsonTask_bounded_retries [OF refl refl, of "''keywords''" third_time_port
      parse_ex always_valid "''sys''" 3 None user_msg shared_ctx 0]
  have c1: "length (map snd (port_calls ?R)) \<le> 3" by (rule main [THEN conjunct1])
  have "\<forall>a \<in> set (butlast (map snd (port_calls ?R))). \<not> attempt_ok parse_ex always_valid a"
    by (rule main [THEN conjunct2, THEN conjunct1])
  then have c4: "\<not> attempt_ok parse_ex always_valid (Inr (reply ''oops''))"
    by (simp add: third_time_run(2))
  have "\<exists>c j. last (map snd (port_calls ?R)) = Inr c \<and> parse_ex (content (message c)) = Some j \<and>
             always_valid j = Valid \<and>
             message_after ?R = message_set ''keywords'' j (Some (completion (usage c))) user_msg \<and>
             message_get (message_after ?R) ''keywords'' = Some j"
    using main [THEN conjunct2, THEN conjunct2] by (simp add: third_time_run(1))
  then obtain c j where h: "last (map snd (port_calls ?R)) = Inr c"
      "parse_ex (content (message c)) = Some j"
      "message_get (message_after ?R) ''keywords'' = Some j"
    by blast
  have "c = reply ''[]''" using h(1) by (simp add: third_time_run(2))
  then have "j = []" using h(2) by (simp add: parse_ex_def reply_def)
  then have c5: "message_get (message_after ?R) ''keywords'' = Some []" using h(3) by simp
  show ?thesis
    by (intro conjI) (rule c1 third_time_run(1) third_time_run(2) c4 c5)+
qed

text \<open>
  Claim C7 as it is worded fails on the error: with a port that never answers well and
  \<open>maxTries = 2\<close>, the tasks of the keys \<open>keywords\<close> and \<open>entities\<close> fail with the same
  error after two calls, and its message names neither key.
\<close>

theorem exhausted_error_names_key_counterexample:
  "outcome (createJsonTask ''keywords'' garbage_port parse_ex always_valid ''sys'' 2 None
      user_msg shared_ctx 0) = Inl (Error ''Unable to parse response after 2 tries'') \<and>
   outcome (createJsonTask ''entities'' garbage_port parse_ex always_valid ''sys'' 2 None
      user_msg shared_ctx 0) = Inl (Error ''Unable to parse response after 2 tries'') \<and>
   map snd (port_calls (createJsonTask ''keywords'' garbage_port parse_ex always_valid ''sys'' 2
      None user_msg shared_ctx 0)) = [Inr (reply ''oops''), Inr (reply ''oops'')]"
  by (intro conjI) (rule garbage_run)+

text \<open>
  The theorem at the port whose first call fails, with a shared context that holds a
  system message.
\<close>

theorem createJsonTask_frame_witness:
  "context_after (createJsonTask ''keywords'' flaky_port parse_ex always_valid ''sys'' 3 None
      user_msg shared_ctx 0) = shared_ctx \<and>
   createJsonTask ''keywords'' flaky_port parse_ex always_valid ''sys'' 3 None user_msg new_Context 0 =
     (createJsonTask ''keywords'' flaky_port parse_ex always_valid ''sys'' 3 None
        user_msg shared_ctx 0)\<lparr>context_after := new_Context\<rparr> \<and>
   map (\<lambda>conv. take 2 (messages conv))
     (map fst (port_calls (createJsonTask ''keywords'' flaky_port parse_ex always_valid ''sys'' 3
        None user_msg shared_ctx 0))) =
     [[SystemChatMessage ''sys'', UserChatMessage ''hello''],
      [SystemChatMessage ''sys'', UserChatMessage ''hello'']] \<and>
   outcome (createJsonTask ''keywords'' flaky_port parse_ex always_valid ''sys'' 3 None
      user_msg shared_ctx 0) = Inr () \<and>
   message_after (createJsonTask ''keywords'' flaky_port parse_ex always_valid ''sys'' 3 None
      user_msg shared_ctx 0) = message_set ''keywords'' [] (Some 5) user_msg \<and>
   message_get (message_after (createJsonTask ''keywords'' flaky_port parse_ex always_valid ''sys''
      3 None user_msg shared_ctx 0)) ''summary'' = message_get user_msg ''summary''"
proof -
  let ?R = "createJsonTask ''keywords'' flaky_port parse_ex always_valid ''sys'' 3 None
      user_msg shared_ctx 0"
  note main = createJsonTask_frame [OF refl, of "''keywords''" flaky_port
      parse_ex always_valid "''sys''" 3 None user_msg shared_ctx 0 new_Context]
  have c1: "context_after ?R = shared_ctx" by (rule main [THEN conjunct1])
  have c2: "createJsonTask ''keywords'' flaky_port parse_ex always_valid ''sys'' 3 None user_msg
      new_Context 0 = ?R\<lparr>context_after := new_Context\<rparr>"
    by (rule main [THEN conjunct2, THEN conjunct1])
  have c3: "map (\<lambda>conv. take 2 (messages conv)) (map fst (port_calls ?R)) =
     [[SystemChatMessage ''sys'', UserChatMessage ''hello''],
      [SystemChatMessage ''sys'', UserChatMessage ''hello'']]"
    by (simp add: flaky_run)
  have c4: "outcome ?R = Inr ()" by (simp add: flaky_run)
  have c5: "message_after ?R = message_set ''keywords'' [] (Some 5) user_msg"
    by (simp add: flaky_run)
  have "\<forall>k. k \<noteq> ''keywords'' \<longrightarrow> message_get (message_after ?R) k = message_get user_msg k"
    by (rule main [THEN conjunct2, THEN conjunct2, THEN conjunct2, THEN conjunct2, THEN conjunct2,
          THEN conjunct2, THEN conjunct2, THEN conjunct2])
  then have c6: "message_get (message_after ?R) ''summary'' = message_get user_msg ''summary''"
    by simp
  show ?thesis
    by (intro conjI) (rule c1 c2 c3 c4 c5 c6)+
qed

text \<open>
  Claim C6 at a failing input. The first call of the port throws a transport error and
  the second answers a valid array: the task feeds the transport error back into its
  conversation as if it were a content error, calls the port again and succeeds. With a
  port whose every call throws, the task calls it \<open>maxTries = 2\<close> times and fails with
  \<open>Unable to parse response after 2 tries\<close>.
\<close>

theorem transport_error_is_retried:
  "outcome (createJsonTask ''keywords'' flaky_port parse_ex always_valid ''sys'' 3 None
      user_msg shared_ctx 0) = Inr () \<and>
   map snd (port_calls (createJsonTask ''keywords'' flaky_port parse_ex always_valid ''sys'' 3 None
      user_msg shared_ctx 0)) =
     [Inl (Error ''Chat completion failed: Bad Gateway''), Inr (reply ''[]'')] \<and>
   messages (conversation (createJsonTask ''keywords'' flaky_port parse_ex always_valid ''sys'' 3
      None user_msg shared_ctx 0)) =
     [SystemChatMessage ''sys'', UserChatMessage ''hello'',
      UserChatMessage (''Unable to parse response. Please fix the error and try again.''
        @ newline @ newline @ ''Error: Chat completion failed: Bad Gateway''),
      message (reply ''[]'')] \<and>
   outcome (createJsonTask ''keywords'' dead_port parse_ex always_valid ''sys'' 2 None
      user_msg shared_ctx 0) = Inl (Error ''Unable to parse response after 2 tries'') \<and>
   map snd (port_calls (createJsonTask ''keywords'' dead_port parse_ex always_valid ''sys'' 2 None
      user_msg shared_ctx 0)) =
     [Inl (Error ''Chat completion failed: Bad Gateway''),
      Inl (Error ''Chat completion failed: Bad Gateway'')]"
proof -
  let ?R = "createJsonTask ''keywords'' flaky_port parse_ex always_valid ''sys'' 3 None
      user_msg shared_ctx 0"
  have c1: "outcome ?R = Inr ()" by (simp add: flaky_run)
  have c2: "map snd (port_calls ?R) =
     [Inl (Error ''Chat completion failed: Bad Gateway''), Inr (reply ''[]'')]"
    by (simp add: flaky_run)
  have c3: "messages (conversation ?R) =
     [SystemChatMessage ''sys'', UserChatMessage ''hello'',
      UserChatMessage (''Unable to parse response. Please fix the error and try again.''
        @ newline @ newline @ ''Error: Chat completion failed: Bad Gateway''),
      message (reply ''[]'')]"
    by (simp add: flaky_run)
  show ?thesis
    by (intro conjI) (rule c1 c2 c3 dead_run_outcome)+
qed


end
